theory Spec2Isabelle
  imports Complex_Main "HOL-Library.Char_ord" "HOL-Library.List_Lexorder"
begin

section \<open>Python values, errors and conversions\<close>

text \<open>
  A scroll step is a Python dict with string keys. The values that occur are operation
  names (strings), rotation counts and flip axes (integers) and colour mappings (dicts from
  integers to integers). A dict is an association list in insertion order; its keys are
  pairwise distinct. Exceptions are values of \<open>py_error\<close>, returned on the left of a sum.
\<close>

datatype py_error =
  ValueError | TypeError | OverflowError | IndexError | KeyError | AttributeError

datatype pyval = VInt int | VStr string | VDict "(int \<times> int) list"

type_synonym step = "(string \<times> pyval) list"
type_synonym scroll = "step list"

text \<open>\<open>d.get(k, default)\<close> on a dict.\<close>

definition dict_get :: "step \<Rightarrow> string \<Rightarrow> pyval \<Rightarrow> pyval" where
  "dict_get d k dflt = (case map_of d k of None \<Rightarrow> dflt | Some v \<Rightarrow> v)"

subsection \<open>Decimal rendering of integers, as an f-string does it\<close>

definition digit_char :: "nat \<Rightarrow> char" where
  "digit_char d = ''0123456789'' ! d"

fun str_nat :: "nat \<Rightarrow> string" where
  "str_nat n = (if n < 10 then [digit_char n] else str_nat (n div 10) @ [digit_char (n mod 10)])"

declare str_nat.simps [simp del]

definition str_int :: "int \<Rightarrow> string" where
  "str_int i = (if i < 0 then CHR ''-'' # str_nat (nat (- i)) else str_nat (nat i))"

fun join_comma :: "string list \<Rightarrow> string" where
  "join_comma [] = []"
| "join_comma [s] = s"
| "join_comma (s # t # ss) = s @ '', '' @ join_comma (t # ss)"

definition str_dict :: "(int \<times> int) list \<Rightarrow> string" where
  "str_dict m = ''{'' @ join_comma (map (\<lambda>(a, b). str_int a @ '': '' @ str_int b) m) @ ''}''"

subsection \<open>The built-in \<open>int()\<close>\<close>

text \<open>
  \<open>int(v)\<close> is the identity on an integer and raises TypeError on a dict. On a string it
  reads a decimal literal (surrounding white space, an optional sign, digits with single
  underscores between them) and raises ValueError on anything else. Strings are ASCII here.
\<close>

definition is_space :: "char \<Rightarrow> bool" where
  "is_space c = (c \<in> set [CHR 0x09, CHR 0x0A, CHR 0x0B, CHR 0x0C, CHR 0x0D,
                           CHR 0x1C, CHR 0x1D, CHR 0x1E, CHR 0x1F, CHR 0x20])"

definition digit_of :: "char \<Rightarrow> nat option" where
  "digit_of c = (if CHR ''0'' \<le> c \<and> c \<le> CHR ''9'' then Some (of_char c - 48) else None)"

fun digits_val :: "string \<Rightarrow> nat \<Rightarrow> nat option" where
  "digits_val [] acc = Some acc"
| "digits_val (c # cs) acc =
     (if c = CHR ''_'' then
        (case cs of
           [] \<Rightarrow> None
         | d # ds \<Rightarrow> (case digit_of d of None \<Rightarrow> None | Some v \<Rightarrow> digits_val ds (10 * acc + v)))
      else (case digit_of c of None \<Rightarrow> None | Some v \<Rightarrow> digits_val cs (10 * acc + v)))"

definition unsigned_val :: "string \<Rightarrow> nat option" where
  "unsigned_val s =
     (case s of [] \<Rightarrow> None
      | c # cs \<Rightarrow> (case digit_of c of None \<Rightarrow> None | Some v \<Rightarrow> digits_val cs v))"

definition strip :: "string \<Rightarrow> string" where
  "strip s = rev (dropWhile is_space (rev (dropWhile is_space s)))"

definition int_of_str :: "string \<Rightarrow> int option" where
  "int_of_str s =
     (case strip s of
        [] \<Rightarrow> None
      | c # cs \<Rightarrow>
          (if c = CHR ''-'' then map_option (\<lambda>n. - int n) (unsigned_val cs)
           else if c = CHR ''+'' then map_option int (unsigned_val cs)
           else map_option int (unsigned_val (c # cs))))"

fun py_int :: "pyval \<Rightarrow> py_error + int" where
  "py_int (VInt n) = Inr n"
| "py_int (VStr s) = (case int_of_str s of None \<Rightarrow> Inl ValueError | Some n \<Rightarrow> Inr n)"
| "py_int (VDict m) = Inl TypeError"

text \<open>\<open>v.items()\<close>: only a dict has the method.\<close>

fun py_items :: "pyval \<Rightarrow> py_error + (int \<times> int) list" where
  "py_items (VDict m) = Inr m"
| "py_items (VInt n) = Inl AttributeError"
| "py_items (VStr s) = Inl AttributeError"

section \<open>numpy arrays\<close>

text \<open>
  A two-dimensional integer array: its shape (rows, columns) and its rows. The shape is kept
  apart from the rows because an array may have no rows and still a width. The element type
  is the 64-bit signed integer; storing a value outside its range raises OverflowError. No
  arithmetic is done on cells.
\<close>

record ndarray =
  shape :: "nat \<times> nat"
  cells :: "int list list"

definition in_int64 :: "int \<Rightarrow> bool" where
  "in_int64 v = (- (2 ^ 63) \<le> v \<and> v < 2 ^ 63)"

definition wf_array :: "ndarray \<Rightarrow> bool" where
  "wf_array a = (length (cells a) = fst (shape a) \<and> (\<forall>r \<in> set (cells a). length r = snd (shape a)))"

text \<open>\<open>np.flip(a, axis)\<close> for axis 0 (the rows in reverse order) and axis 1 (each row reversed).\<close>

definition np_flip :: "ndarray \<Rightarrow> int \<Rightarrow> ndarray" where
  "np_flip a axis = (if axis = 0 then a\<lparr>cells := rev (cells a)\<rparr> else a\<lparr>cells := map rev (cells a)\<rparr>)"

text \<open>\<open>a.T\<close>: cell (j, i) of the result is cell (i, j) of the array.\<close>

definition np_transpose :: "ndarray \<Rightarrow> ndarray" where
  "np_transpose a =
     \<lparr>shape = (snd (shape a), fst (shape a)),
      cells = map (\<lambda>j. map (\<lambda>r. r ! j) (cells a)) [0 ..< snd (shape a)]\<rparr>"

text \<open>\<open>np.rot90(a, k)\<close>, counter-clockwise, as numpy composes it from flips and a transpose.\<close>

definition np_rot90 :: "ndarray \<Rightarrow> int \<Rightarrow> ndarray" where
  "np_rot90 a k =
     (let k = k mod 4 in
      if k = 0 then a
      else if k = 2 then np_flip (np_flip a 0) 1
      else if k = 1 then np_transpose (np_flip a 1)
      else np_flip (np_transpose a) 1)"

text \<open>\<open>np.unique(a)\<close>: the distinct values of the flattened array, ascending.\<close>

definition np_unique :: "ndarray \<Rightarrow> int list" where
  "np_unique a = sort (remdups (concat (cells a)))"

section \<open>scroll\_core: grids and scroll execution\<close>

record Grid =
  data :: ndarray
  log :: "string list"

text \<open>
  \<open>Grid.from_list\<close>: \<open>np.array(lst, dtype=int)\<close> rejects rows of different lengths and
  values outside the element type; an empty list gives a one-dimensional array, which the
  method rejects itself.
\<close>

definition from_list :: "int list list \<Rightarrow> py_error + Grid" where
  "from_list lst =
     (if \<exists>r \<in> set lst. length r \<noteq> length (hd lst) then Inl ValueError
      else if \<exists>v \<in> set (concat lst). \<not> in_int64 v then Inl OverflowError
      else if lst = [] then Inl ValueError
      else Inr \<lparr>data = \<lparr>shape = (length lst, length (hd lst)), cells = lst\<rparr>, log = []\<rparr>)"

definition to_list :: "Grid \<Rightarrow> int list list" where
  "to_list g = cells (data g)"

definition op_ROT90 :: "Grid \<Rightarrow> int \<Rightarrow> Grid" where
  "op_ROT90 g k =
     (let k = (k mod 4 + 4) mod 4
      in \<lparr>data = np_rot90 (data g) k, log = log g @ [''ROT90('' @ str_int k @ '')'']\<rparr>)"

definition op_FLIP :: "Grid \<Rightarrow> int \<Rightarrow> py_error + Grid" where
  "op_FLIP g axis =
     (if axis \<notin> {0, 1} then Inl ValueError
      else Inr \<lparr>data = np_flip (data g) axis, log = log g @ [''FLIP('' @ str_int axis @ '')'']\<rparr>)"

definition op_TRANSPOSE :: "Grid \<Rightarrow> Grid" where
  "op_TRANSPOSE g = \<lparr>data = np_transpose (data g), log = log g @ [''TRANSPOSE'']\<rparr>"

text \<open>
  The loop of \<open>op_REMAP\<close>: for each entry \<open>(a, b)\<close> in the mapping's order,
  \<open>out[g.data == a] = b\<close>. The mask is taken on the original cells, the store goes to
  \<open>out\<close>.
\<close>

fun remap_loop :: "int list list \<Rightarrow> (int \<times> int) list \<Rightarrow> int list list \<Rightarrow> py_error + int list list" where
  "remap_loop orig [] out = Inr out"
| "remap_loop orig ((a, b) # rest) out =
     (if \<not> in_int64 b then Inl OverflowError
      else remap_loop orig rest
             (map2 (\<lambda>orow crow. map2 (\<lambda>ov c. if ov = a then b else c) orow crow) orig out))"

definition op_REMAP :: "Grid \<Rightarrow> (int \<times> int) list \<Rightarrow> py_error + Grid" where
  "op_REMAP g mapping =
     (case remap_loop (cells (data g)) mapping (cells (data g)) of
        Inl e \<Rightarrow> Inl e
      | Inr out \<Rightarrow>
          Inr \<lparr>data = (data g)\<lparr>cells := out\<rparr>, log = log g @ [''REMAP('' @ str_dict mapping @ '')'']\<rparr>)"

text \<open>
  The body of the loop of \<open>apply_scroll\<close>. The mapping of a REMAP step is rebuilt with
  \<open>int()\<close> on its keys and values, which is the identity on a dict of integers.
\<close>

definition apply_step :: "step \<Rightarrow> Grid \<Rightarrow> py_error + Grid" where
  "apply_step step current =
     (let op = map_of step ''op'' in
      if op = Some (VStr ''ROT90'') then
        (case py_int (dict_get step ''k'' (VInt 1)) of
           Inl e \<Rightarrow> Inl e
         | Inr k \<Rightarrow> Inr (op_ROT90 current k))
      else if op = Some (VStr ''FLIP'') then
        (case py_int (dict_get step ''axis'' (VInt 1)) of
           Inl e \<Rightarrow> Inl e
         | Inr axis \<Rightarrow> op_FLIP current axis)
      else if op = Some (VStr ''TRANSPOSE'') then Inr (op_TRANSPOSE current)
      else if op = Some (VStr ''REMAP'') then
        (case py_items (dict_get step ''mapping'' (VDict [])) of
           Inl e \<Rightarrow> Inl e
         | Inr mapping \<Rightarrow> op_REMAP current mapping)
      else Inl ValueError)"

fun apply_scroll :: "scroll \<Rightarrow> Grid \<Rightarrow> py_error + Grid" where
  "apply_scroll [] g = Inr g"
| "apply_scroll (step # rest) g =
     (case apply_step step g of Inl e \<Rightarrow> Inl e | Inr current \<Rightarrow> apply_scroll rest current)"

section \<open>patcher\_nova: scoring and beam search\<close>

text \<open>
  Scores are Python floats in the source. They are exact rationals here: the sums of counts
  are integers in the source too, and only the quotient, the weights 0.7 and 0.3 and the
  mean are rounded there.
\<close>

text \<open>\<open>palette\<close>: each distinct value with the number of cells that hold it.\<close>

definition palette :: "ndarray \<Rightarrow> (int \<times> nat) list" where
  "palette arr = map (\<lambda>v. (v, count_list (concat (cells arr)) v)) (np_unique arr)"

definition count_get :: "(int \<times> nat) list \<Rightarrow> int \<Rightarrow> nat" where
  "count_get p c = (case map_of p c of None \<Rightarrow> 0 | Some n \<Rightarrow> n)"

definition palette_similarity :: "ndarray \<Rightarrow> ndarray \<Rightarrow> rat" where
  "palette_similarity a b =
     (let pa = palette a; pb = palette b;
          colors = remdups (map fst pa @ map fst pb)
      in if colors = [] then 1
         else
           (let num = sum_list (map (\<lambda>c. min (count_get pa c) (count_get pb c)) colors);
                den = sum_list (map (\<lambda>c. max (count_get pa c) (count_get pb c)) colors)
            in if den > 0 then of_nat num / of_nat den else 1))"

definition rot_step :: "int \<Rightarrow> step" where
  "rot_step k = [(''op'', VStr ''ROT90''), (''k'', VInt k)]"

definition flip_step :: "int \<Rightarrow> step" where
  "flip_step axis = [(''op'', VStr ''FLIP''), (''axis'', VInt axis)]"

definition transpose_step :: step where
  "transpose_step = [(''op'', VStr ''TRANSPOSE'')]"

definition remap_step :: "(int \<times> int) list \<Rightarrow> step" where
  "remap_step m = [(''op'', VStr ''REMAP''), (''mapping'', VDict m)]"

definition op_space :: "scroll list" where
  "op_space =
     map (\<lambda>k. [rot_step k]) [1, 2, 3]
     @ map (\<lambda>axis. [flip_step axis]) [0, 1]
     @ [[transpose_step]]
     @ concat (map (\<lambda>k. map (\<lambda>axis. [rot_step k, flip_step axis]) [0, 1]) [1, 2, 3])"

definition infer_remap :: "ndarray \<Rightarrow> ndarray \<Rightarrow> (int \<times> int) list option" where
  "infer_remap x y =
     (let xv = sort (np_unique x); yv = sort (np_unique y)
      in if length xv \<noteq> length yv then None else Some (zip xv yv))"

text \<open>\<open>np.all(out == y)\<close> on arrays of one shape, and \<open>np.array_equal\<close>.\<close>

definition np_all_eq :: "ndarray \<Rightarrow> ndarray \<Rightarrow> bool" where
  "np_all_eq a b = (cells a = cells b)"

definition np_array_equal :: "ndarray \<Rightarrow> ndarray \<Rightarrow> bool" where
  "np_array_equal a b = (shape a = shape b \<and> cells a = cells b)"

text \<open>The body of the loop of \<open>score_prog\<close>: the score appended for one pair.\<close>

definition score_pair :: "scroll \<Rightarrow> Grid \<Rightarrow> Grid \<Rightarrow> rat" where
  "score_pair scroll x y =
     (case apply_scroll scroll x of
        Inl e \<Rightarrow> 0
      | Inr g \<Rightarrow>
          (let out = data g in
           if shape out = shape (data y) \<and> np_all_eq out (data y) then 1
           else
             (let p_sim = palette_similarity out (data y);
                  shape_sim = (if shape out = shape (data y) then 1 else 0)
              in 7 / 10 * p_sim + 3 / 10 * shape_sim)))"

definition score_prog :: "scroll \<Rightarrow> Grid list \<Rightarrow> Grid list \<Rightarrow> rat" where
  "score_prog scroll xs ys =
     (let scores = map (\<lambda>(x, y). score_pair scroll x y) (zip xs ys)
      in if scores \<noteq> [] then sum_list scores / of_nat (length scores) else 0)"

subsection \<open>The de-duplication key\<close>

text \<open>
  \<open>tuple((step['op'], tuple(sorted(step.items()))) for step in new_prog)\<close>. The items of a
  dict differ in their keys, so sorting compares the keys only. A missing \<open>'op'\<close> raises
  KeyError.
\<close>

type_synonym step_key = "pyval \<times> (string \<times> pyval) list"
type_synonym key = "step_key list"

fun canon_key :: "scroll \<Rightarrow> py_error + key" where
  "canon_key [] = Inr []"
| "canon_key (step # rest) =
     (case map_of step ''op'' of
        None \<Rightarrow> Inl KeyError
      | Some opv \<Rightarrow>
          (case canon_key rest of
             Inl e \<Rightarrow> Inl e
           | Inr ks \<Rightarrow> Inr ((opv, sort_key fst step) # ks)))"

text \<open>
  \<open>key in seen\<close> hashes the key first. Integers and strings are hashable, and so is a tuple
  of hashable values; a dict is not, and hashing it raises TypeError.
\<close>

fun hashable :: "pyval \<Rightarrow> bool" where
  "hashable (VInt n) = True"
| "hashable (VStr s) = True"
| "hashable (VDict m) = False"

definition key_hashable :: "key \<Rightarrow> bool" where
  "key_hashable k = (\<forall>(opv, items) \<in> set k. hashable opv \<and> (\<forall>(name, v) \<in> set items. hashable v))"

definition key_in_seen :: "key \<Rightarrow> key set \<Rightarrow> py_error + bool" where
  "key_in_seen k seen = (if key_hashable k then Inr (k \<in> seen) else Inl TypeError)"

subsection \<open>The search\<close>

type_synonym candidate = "scroll \<times> rat"

text \<open>The inner loop \<open>for ops in op_lib\<close>, on the state \<open>(seen, next_pool)\<close>.\<close>

fun expand_prog ::
  "Grid list \<Rightarrow> Grid list \<Rightarrow> scroll \<Rightarrow> scroll list \<Rightarrow> key set \<times> candidate list
     \<Rightarrow> py_error + key set \<times> candidate list" where
  "expand_prog xs ys prog [] st = Inr st"
| "expand_prog xs ys prog (ops # op_lib) (seen, next_pool) =
     (let new_prog = prog @ ops in
      case canon_key new_prog of
        Inl e \<Rightarrow> Inl e
      | Inr k \<Rightarrow>
          (case key_in_seen k seen of
             Inl e \<Rightarrow> Inl e
           | Inr True \<Rightarrow> expand_prog xs ys prog op_lib (seen, next_pool)
           | Inr False \<Rightarrow>
               expand_prog xs ys prog op_lib
                 (insert k seen, next_pool @ [(new_prog, score_prog new_prog xs ys)])))"

text \<open>The loop \<open>for prog, _score in pool\<close>.\<close>

fun expand_pool ::
  "Grid list \<Rightarrow> Grid list \<Rightarrow> scroll list \<Rightarrow> candidate list \<Rightarrow> key set \<times> candidate list
     \<Rightarrow> py_error + key set \<times> candidate list" where
  "expand_pool xs ys op_lib [] st = Inr st"
| "expand_pool xs ys op_lib ((prog, s) # pool) st =
     (case expand_prog xs ys prog op_lib st of
        Inl e \<Rightarrow> Inl e
      | Inr st' \<Rightarrow> expand_pool xs ys op_lib pool st')"

text \<open>\<open>pool.sort(key=lambda t: t[1], reverse=True)\<close>: stable, highest score first.\<close>

definition sort_desc :: "candidate list \<Rightarrow> candidate list" where
  "sort_desc pool = sort_key (\<lambda>t. - snd t) pool"

text \<open>The slice \<open>xs[:n]\<close>; a negative \<open>n\<close> counts from the end.\<close>

definition slice_to :: "'a list \<Rightarrow> int \<Rightarrow> 'a list" where
  "slice_to xs n = (if 0 \<le> n then take (nat n) xs else take (length xs - nat (- n)) xs)"

text \<open>The loop \<open>for _ in range(depth)\<close>, on the state \<open>(pool, seen)\<close>.\<close>

fun search ::
  "Grid list \<Rightarrow> Grid list \<Rightarrow> scroll list \<Rightarrow> int \<Rightarrow> nat \<Rightarrow> candidate list \<times> key set
     \<Rightarrow> py_error + candidate list \<times> key set" where
  "search xs ys op_lib beam 0 st = Inr st"
| "search xs ys op_lib beam (Suc n) (pool, seen) =
     (case expand_pool xs ys op_lib pool (seen, []) of
        Inl e \<Rightarrow> Inl e
      | Inr (seen', next_pool) \<Rightarrow>
          search xs ys op_lib beam n (slice_to (sort_desc next_pool) beam, seen'))"

text \<open>A training pair: the dict with the entries \<open>'input'\<close> and \<open>'output'\<close>.\<close>

record train_pair =
  p_input :: "int list list"
  p_output :: "int list list"

fun grids_of :: "int list list list \<Rightarrow> py_error + Grid list" where
  "grids_of [] = Inr []"
| "grids_of (l # ls) =
     (case from_list l of
        Inl e \<Rightarrow> Inl e
      | Inr g \<Rightarrow> (case grids_of ls of Inl e \<Rightarrow> Inl e | Inr gs \<Rightarrow> Inr (g # gs)))"

text \<open>
  The initial pool: the empty scroll and, when \<open>_infer_remap\<close> on the first pair gives a
  non-empty mapping, the one-step REMAP scroll.
\<close>

definition seed_pool :: "Grid list \<Rightarrow> Grid list \<Rightarrow> candidate list" where
  "seed_pool xs ys =
     (let remap0 = infer_remap (data (hd xs)) (data (hd ys));
          pool = [([], score_prog [] xs ys)]
      in case remap0 of
           None \<Rightarrow> pool
         | Some m \<Rightarrow>
             if m = [] then pool
             else (let rm = [remap_step m] in pool @ [(rm, score_prog rm xs ys)]))"

definition synthesize_scroll :: "train_pair list \<Rightarrow> int \<Rightarrow> int \<Rightarrow> py_error + scroll" where
  "synthesize_scroll train_pairs beam depth =
     (case grids_of (map p_input train_pairs) of
        Inl e \<Rightarrow> Inl e
      | Inr xs \<Rightarrow>
          (case grids_of (map p_output train_pairs) of
             Inl e \<Rightarrow> Inl e
           | Inr ys \<Rightarrow>
               if xs = [] then Inl IndexError
               else
                 (case search xs ys op_space beam (nat depth) (seed_pool xs ys, {}) of
                    Inl e \<Rightarrow> Inl e
                  | Inr (pool, seen) \<Rightarrow>
                      (case sort_desc pool of
                         [] \<Rightarrow> Inr []
                       | (prog, s) # rest \<Rightarrow> Inr prog))))"

text \<open>The loop of \<open>eval_scroll\<close>, with the index of the pair.\<close>

fun eval_loop :: "scroll \<Rightarrow> nat \<Rightarrow> (Grid \<times> Grid) list \<Rightarrow> py_error + bool \<times> string" where
  "eval_loop scroll i [] = Inr (True, ''exact match'')"
| "eval_loop scroll i ((x, y) # rest) =
     (case apply_scroll scroll x of
        Inl e \<Rightarrow> Inl e
      | Inr out \<Rightarrow>
          if shape (data out) \<noteq> shape (data y) \<or> \<not> np_array_equal (data out) (data y)
          then Inr (False, ''mismatch on pair '' @ str_int (int i + 1))
          else eval_loop scroll (Suc i) rest)"

definition eval_scroll :: "scroll \<Rightarrow> train_pair list \<Rightarrow> py_error + bool \<times> string" where
  "eval_scroll scroll train_pairs =
     (case grids_of (map p_input train_pairs) of
        Inl e \<Rightarrow> Inl e
      | Inr xs \<Rightarrow>
          (case grids_of (map p_output train_pairs) of
             Inl e \<Rightarrow> Inl e
           | Inr ys \<Rightarrow> eval_loop scroll 0 (zip xs ys)))"

section \<open>Predicates used in the statements\<close>






text \<open>
  What REMAP does to one cell, in the words of the specification: the mapped value when the
  cell's value is a key of the mapping, the value itself otherwise.
\<close>

definition spec_remap_cell :: "(int \<times> int) list \<Rightarrow> int \<Rightarrow> int" where
  "spec_remap_cell m c = (case map_of m c of None \<Rightarrow> c | Some b \<Rightarrow> b)"

text \<open>
  The scorer in the words of the specification. Palette similarity: the sum over the colours
  present in either grid of the smaller count, divided by the sum of the larger count, and 1
  when neither grid has a colour. A pair matches exactly when the scroll runs and its output
  has the target's shape and cells. The score of a pair: 0 when the scroll fails, 1 on an
  exact match, and otherwise 0.7 times the palette similarity plus 0.3 times the shape
  similarity.
\<close>

definition spec_palette_similarity :: "ndarray \<Rightarrow> ndarray \<Rightarrow> rat" where
  "spec_palette_similarity a b =
     (let fa = concat (cells a); fb = concat (cells b); colours = set fa \<union> set fb
      in if colours = {} then 1
         else of_nat (\<Sum>c \<in> colours. min (count_list fa c) (count_list fb c))
              / of_nat (\<Sum>c \<in> colours. max (count_list fa c) (count_list fb c)))"

definition spec_exact_match :: "scroll \<Rightarrow> Grid \<Rightarrow> Grid \<Rightarrow> bool" where
  "spec_exact_match scroll x y =
     (case apply_scroll scroll x of
        Inl e \<Rightarrow> False
      | Inr g \<Rightarrow> shape (data g) = shape (data y) \<and> cells (data g) = cells (data y))"

definition spec_pair_score :: "scroll \<Rightarrow> Grid \<Rightarrow> Grid \<Rightarrow> rat" where
  "spec_pair_score scroll x y =
     (case apply_scroll scroll x of
        Inl e \<Rightarrow> 0
      | Inr g \<Rightarrow>
          if spec_exact_match scroll x y then 1
          else 7 / 10 * spec_palette_similarity (data g) (data y)
               + 3 / 10 * (if shape (data g) = shape (data y) then 1 else 0))"

text \<open>
  For the invariant of the search: the key of the step ROT90(1), the first move of the
  vocabulary; what holds of the state \<open>(seen, next_pool)\<close> inside a round that started
  with \<open>seen0\<close>; and what holds of \<open>(pool, seen)\<close> between rounds.
\<close>

definition kR1 :: step_key where
  "kR1 = (VStr ''ROT90'', [(''k'', VInt 1), (''op'', VStr ''ROT90'')])"

definition round_inv :: "candidate list \<Rightarrow> key set \<Rightarrow> key set \<times> candidate list \<Rightarrow> bool" where
  "round_inv pool seen0 st =
     (case st of (seen, np) \<Rightarrow>
        seen0 \<subseteq> seen \<and>
        (\<forall>(g, s) \<in> set np. g \<noteq> [] \<and>
           (\<exists>kg. canon_key g = Inr kg \<and> key_hashable kg \<and> kg \<in> seen \<and> kg \<notin> seen0)) \<and>
        (\<forall>k \<in> seen. k \<in> seen0 \<or>
           (\<exists>(p, s) \<in> set pool. \<exists>ops \<in> set op_space. \<exists>kp ko.
              canon_key p = Inr kp \<and> canon_key ops = Inr ko \<and> k = kp @ ko)))"

definition pool_inv :: "candidate list \<Rightarrow> key set \<Rightarrow> bool" where
  "pool_inv pool seen =
     ((\<forall>(p, s) \<in> set pool. \<exists>kp. canon_key p = Inr kp \<and> (kp = [] \<or> kp \<in> seen) \<and> kp @ [kR1] \<notin> seen) \<and>
      (\<forall>ks. ks @ [kR1] \<in> seen \<longrightarrow> ks = [] \<or> ks \<in> seen))"

text \<open>The grid that \<open>Grid.from_list\<close> builds from rows it accepts.\<close>

definition grid_of_rows :: "int list list \<Rightarrow> Grid" where
  "grid_of_rows l = \<lparr>data = \<lparr>shape = (length l, length (hd l)), cells = l\<rparr>, log = []\<rparr>"

text \<open>A step that is a dict (its keys are distinct) with an \<open>'op'\<close> entry.\<close>

definition step_ok :: "step \<Rightarrow> bool" where
  "step_ok s = (distinct (map fst s) \<and> map_of s ''op'' \<noteq> None)"

section \<open>Execution: errors and the provenance log\<close>

lemmas exec_defs =
  apply_step_def dict_get_def op_ROT90_def op_FLIP_def op_TRANSPOSE_def op_REMAP_def
  np_rot90_def np_flip_def np_transpose_def str_int_def str_nat.simps digit_char_def
  rot_step_def flip_step_def transpose_step_def remap_step_def Let_def upt_rec


lemma remap_loop_fail:
  "\<not> (\<forall>(a, b) \<in> set m. in_int64 b) \<Longrightarrow> remap_loop orig m out = Inl OverflowError"
  by (induction orig m out rule: remap_loop.induct) auto




lemma apply_step_log:
  "apply_step step g = Inr g' \<Longrightarrow> \<exists>d. log g' = log g @ [d]"
  by (auto simp: apply_step_def op_ROT90_def op_FLIP_def op_TRANSPOSE_def op_REMAP_def Let_def
      split: if_splits sum.splits)

lemma apply_scroll_log:
  "apply_scroll s g = Inr g' \<Longrightarrow> \<exists>ds. length ds = length s \<and> log g' = log g @ ds"
proof (induction s arbitrary: g)
  case Nil
  then show ?case by simp
next
  case (Cons step rest)
  from Cons.prems obtain g1 where s1: "apply_step step g = Inr g1"
    and r: "apply_scroll rest g1 = Inr g'"
    by (auto split: sum.splits)
  from apply_step_log [OF s1] obtain d where d: "log g1 = log g @ [d]" by blast
  from Cons.IH [OF r] obtain ds where "length ds = length rest" "log g' = log g1 @ ds" by blast
  with d have "length (d # ds) = length (step # rest) \<and> log g' = log g @ (d # ds)" by simp
  then show ?case by blast
qed

text \<open>
  Claim C7. When \<open>apply_scroll\<close> succeeds, the log of the result is the log of the input
  grid followed by exactly one descriptor for each step of the scroll; the empty scroll
  returns the grid itself, with its cells, shape and log.
\<close>

theorem apply_scroll_log_extends:
  "apply_scroll [] g = Inr g \<and>
   (apply_scroll s g = Inr g' \<longrightarrow> (\<exists>ds. length ds = length s \<and> log g' = log g @ ds))"
  using apply_scroll_log [of s g g'] by simp

theorem apply_scroll_log_extends_witness:
  "apply_scroll [rot_step 1, flip_step 0]
     \<lparr>data = \<lparr>shape = (1, 2), cells = [[1, 2]]\<rparr>, log = [''start'']\<rparr>
   = Inr \<lparr>data = \<lparr>shape = (2, 1), cells = [[1], [2]]\<rparr>,
          log = [''start'', ''ROT90(1)'', ''FLIP(0)'']\<rparr> \<and>
   (\<exists>ds. length ds = length [rot_step 1, flip_step 0] \<and>
      log \<lparr>data = \<lparr>shape = (2, 1), cells = [[1], [2]]\<rparr>,
           log = [''start'', ''ROT90(1)'', ''FLIP(0)'']\<rparr>
      = log \<lparr>data = \<lparr>shape = (1, 2), cells = [[1, 2]]\<rparr>, log = [''start'']\<rparr> @ ds)"
proof -
  have e: "apply_scroll [rot_step 1, flip_step 0]
             \<lparr>data = \<lparr>shape = (1, 2), cells = [[1, 2]]\<rparr>, log = [''start'']\<rparr>
           = Inr \<lparr>data = \<lparr>shape = (2, 1), cells = [[1], [2]]\<rparr>,
                  log = [''start'', ''ROT90(1)'', ''FLIP(0)'']\<rparr>"
    by (simp add: exec_defs)
  from apply_scroll_log_extends
         [of "\<lparr>data = \<lparr>shape = (1, 2), cells = [[1, 2]]\<rparr>, log = [''start'']\<rparr>"
             "[rot_step 1, flip_step 0]"
             "\<lparr>data = \<lparr>shape = (2, 1), cells = [[1], [2]]\<rparr>,
               log = [''start'', ''ROT90(1)'', ''FLIP(0)'']\<rparr>"] e
  show ?thesis by blast
qed

section \<open>The move vocabulary\<close>

text \<open>
  Claim C9, as amended. The moves generated for the search are exactly the following, in this
  order: ROT90(k) alone for k = 1, 2, 3, FLIP(axis) alone for axis = 0, 1, TRANSPOSE alone,
  and ROT90(k) followed by FLIP(axis) for the six combinations. They are pairwise different
  and there are 12 of them.
\<close>

theorem op_space_moves:
  "op_space =
    [[[(''op'', VStr ''ROT90''), (''k'', VInt 1)]],
     [[(''op'', VStr ''ROT90''), (''k'', VInt 2)]],
     [[(''op'', VStr ''ROT90''), (''k'', VInt 3)]],
     [[(''op'', VStr ''FLIP''), (''axis'', VInt 0)]],
     [[(''op'', VStr ''FLIP''), (''axis'', VInt 1)]],
     [[(''op'', VStr ''TRANSPOSE'')]],
     [[(''op'', VStr ''ROT90''), (''k'', VInt 1)], [(''op'', VStr ''FLIP''), (''axis'', VInt 0)]],
     [[(''op'', VStr ''ROT90''), (''k'', VInt 1)], [(''op'', VStr ''FLIP''), (''axis'', VInt 1)]],
     [[(''op'', VStr ''ROT90''), (''k'', VInt 2)], [(''op'', VStr ''FLIP''), (''axis'', VInt 0)]],
     [[(''op'', VStr ''ROT90''), (''k'', VInt 2)], [(''op'', VStr ''FLIP''), (''axis'', VInt 1)]],
     [[(''op'', VStr ''ROT90''), (''k'', VInt 3)], [(''op'', VStr ''FLIP''), (''axis'', VInt 0)]],
     [[(''op'', VStr ''ROT90''), (''k'', VInt 3)], [(''op'', VStr ''FLIP''), (''axis'', VInt 1)]]]
   \<and> distinct op_space \<and> length op_space = 12"
  by (simp add: op_space_def rot_step_def flip_step_def transpose_step_def)

text \<open>The vocabulary does not have 13 moves.\<close>

theorem op_space_not_13: "length op_space \<noteq> 13"
  by (simp add: op_space_def)

section \<open>REMAP\<close>

lemma map2_map_same: "map2 f xs (map g xs) = map (\<lambda>x. f x (g x)) xs"
  by (induction xs) auto

lemma remap_loop_char:
  assumes "distinct (map fst m)" and "\<forall>(a, b) \<in> set m. in_int64 b"
  shows "remap_loop orig m (map (map \<phi>) orig)
           = Inr (map (map (\<lambda>c. case map_of m c of None \<Rightarrow> \<phi> c | Some b \<Rightarrow> b)) orig)"
  using assms
proof (induction m arbitrary: \<phi>)
  case Nil
  then show ?case by simp
next
  case (Cons p rest)
  obtain a b where p: "p = (a, b)" by (cases p)
  let ?\<phi>' = "\<lambda>ov. if ov = a then b else \<phi> ov"
  have step: "map2 (\<lambda>orow crow. map2 (\<lambda>ov c. if ov = a then b else c) orow crow) orig (map (map \<phi>) orig)
                = map (map ?\<phi>') orig"
    by (simp add: map2_map_same)
  have notin: "map_of rest a = None"
    using Cons.prems(1) p by (simp add: map_of_eq_None_iff)
  have fn: "(\<lambda>c. case map_of rest c of None \<Rightarrow> ?\<phi>' c | Some b' \<Rightarrow> b')
              = (\<lambda>c. case map_of (p # rest) c of None \<Rightarrow> \<phi> c | Some b' \<Rightarrow> b')"
    using notin p by (auto simp: fun_eq_iff split: option.splits)
  have "remap_loop orig (p # rest) (map (map \<phi>) orig) = remap_loop orig rest (map (map ?\<phi>') orig)"
    using Cons.prems(2) p step by simp
  also have "\<dots> = Inr (map (map (\<lambda>c. case map_of rest c of None \<Rightarrow> ?\<phi>' c | Some b' \<Rightarrow> b')) orig)"
    using Cons.IH [of ?\<phi>'] Cons.prems by simp
  finally show ?case by (simp only: fn)
qed

lemma op_REMAP_char:
  assumes "distinct (map fst m)"
  shows "op_REMAP g m =
           (if \<forall>(a, b) \<in> set m. in_int64 b
            then Inr \<lparr>data = (data g)\<lparr>cells := map (map (spec_remap_cell m)) (cells (data g))\<rparr>,
                      log = log g @ [''REMAP('' @ str_dict m @ '')'']\<rparr>
            else Inl OverflowError)"
proof (cases "\<forall>(a, b) \<in> set m. in_int64 b")
  case True
  have "remap_loop (cells (data g)) m (map (map (\<lambda>c. c)) (cells (data g)))
          = Inr (map (map (\<lambda>c. case map_of m c of None \<Rightarrow> c | Some b \<Rightarrow> b)) (cells (data g)))"
    using assms True by (rule remap_loop_char)
  then have "remap_loop (cells (data g)) m (cells (data g))
          = Inr (map (map (spec_remap_cell m)) (cells (data g)))"
    by (simp add: spec_remap_cell_def [abs_def])
  with True show ?thesis by (simp add: op_REMAP_def)
next
  case False
  then show ?thesis by (simp add: op_REMAP_def remap_loop_fail)
qed

text \<open>
  Claim C8. For a mapping with pairwise distinct keys, REMAP sets each cell to the mapped
  value of the original cell when that value is a key and leaves it otherwise, the mask being
  taken on the original array; the resulting array (or the failure, when a value does not
  fit the array) is the same for every order of the mapping's entries.
\<close>

theorem op_REMAP_order_independent:
  assumes "distinct (map fst m)"
  shows "op_REMAP g m =
           (if \<forall>(a, b) \<in> set m. in_int64 b
            then Inr \<lparr>data = (data g)\<lparr>cells := map (map (spec_remap_cell m)) (cells (data g))\<rparr>,
                      log = log g @ [''REMAP('' @ str_dict m @ '')'']\<rparr>
            else Inl OverflowError) \<and>
         (distinct (map fst m') \<and> set m' = set m \<longrightarrow>
            map_sum id data (op_REMAP g m') = map_sum id data (op_REMAP g m))"
proof (intro conjI impI)
  show "op_REMAP g m =
           (if \<forall>(a, b) \<in> set m. in_int64 b
            then Inr \<lparr>data = (data g)\<lparr>cells := map (map (spec_remap_cell m)) (cells (data g))\<rparr>,
                      log = log g @ [''REMAP('' @ str_dict m @ '')'']\<rparr>
            else Inl OverflowError)"
    using assms by (rule op_REMAP_char)
next
  assume h: "distinct (map fst m') \<and> set m' = set m"
  then have "map_of m' = map_of m"
    using assms by (simp add: map_of_inject_set)
  then have "spec_remap_cell m' = spec_remap_cell m"
    by (simp add: spec_remap_cell_def fun_eq_iff)
  with h show "map_sum id data (op_REMAP g m') = map_sum id data (op_REMAP g m)"
    using assms by (simp add: op_REMAP_char)
qed

theorem op_REMAP_order_independent_witness:
  "distinct (map fst ([(1, 2), (2, 3)] :: (int \<times> int) list)) \<and>
   op_REMAP \<lparr>data = \<lparr>shape = (1, 3), cells = [[1, 2, 5]]\<rparr>, log = []\<rparr> [(1, 2), (2, 3)]
     = Inr \<lparr>data = \<lparr>shape = (1, 3), cells = [[2, 3, 5]]\<rparr>, log = [''REMAP({1: 2, 2: 3})'']\<rparr> \<and>
   map_sum id data (op_REMAP \<lparr>data = \<lparr>shape = (1, 3), cells = [[1, 2, 5]]\<rparr>, log = []\<rparr> [(2, 3), (1, 2)])
     = Inr \<lparr>shape = (1, 3), cells = [[2, 3, 5]]\<rparr>"
proof -
  have d: "distinct (map fst ([(1, 2), (2, 3)] :: (int \<times> int) list))" by simp
  have d': "distinct (map fst ([(2, 3), (1, 2)] :: (int \<times> int) list)) \<and> set ([(2, 3), (1, 2)] :: (int \<times> int) list) = set [(1, 2), (2, 3)]"
    by auto
  from op_REMAP_order_independent [OF d, of "\<lparr>data = \<lparr>shape = (1, 3), cells = [[1, 2, 5]]\<rparr>, log = []\<rparr>" "[(2, 3), (1, 2)]"] d d'
  show ?thesis
    by (simp add: spec_remap_cell_def in_int64_def str_dict_def str_int_def str_nat.simps digit_char_def)
qed

section \<open>The scorer\<close>

lemma map_of_tabulate:
  "map_of (map (\<lambda>v. (v, f v)) xs) c = (if c \<in> set xs then Some (f c) else None)"
  by (induction xs) auto

lemma count_get_palette: "count_get (palette a) c = count_list (concat (cells a)) c"
  by (auto simp: count_get_def palette_def np_unique_def map_of_tabulate count_list_0_iff)

lemma palette_keys: "set (map fst (palette a)) = set (concat (cells a))"
  by (simp add: palette_def np_unique_def comp_def)

lemma sum_max_count_pos:
  fixes fa fb :: "int list"
  assumes "set fa \<union> set fb \<noteq> {}"
  shows "0 < (\<Sum>c \<in> set fa \<union> set fb. max (count_list fa c) (count_list fb c))"
proof -
  from assms have "fa @ fb \<noteq> []" by auto
  then obtain c cs where "fa @ fb = c # cs" by (cases "fa @ fb") auto
  then have c: "c \<in> set fa \<union> set fb" by (metis list.set_intros(1) set_append)
  then have "count_list fa c \<noteq> 0 \<or> count_list fb c \<noteq> 0"
    by (auto simp: count_list_0_iff)
  then have "0 < max (count_list fa c) (count_list fb c)"
    by (auto simp: less_max_iff_disj)
  moreover have "finite (set fa \<union> set fb)" by simp
  ultimately show ?thesis using c
    by (meson sum_pos2 zero_le)
qed

lemma palette_similarity_spec: "palette_similarity a b = spec_palette_similarity a b"
proof -
  let ?fa = "concat (cells a)" and ?fb = "concat (cells b)"
  let ?cs = "remdups (map fst (palette a) @ map fst (palette b))"
  have cs: "set ?cs = set ?fa \<union> set ?fb"
    using palette_keys [of a] palette_keys [of b] by simp
  have d: "distinct ?cs" by simp
  have num: "sum_list (map (\<lambda>c. min (count_get (palette a) c) (count_get (palette b) c)) ?cs)
              = (\<Sum>c \<in> set ?fa \<union> set ?fb. min (count_list ?fa c) (count_list ?fb c))"
    using sum_list_distinct_conv_sum_set [OF d] cs by (simp add: count_get_palette)
  have den: "sum_list (map (\<lambda>c. max (count_get (palette a) c) (count_get (palette b) c)) ?cs)
              = (\<Sum>c \<in> set ?fa \<union> set ?fb. max (count_list ?fa c) (count_list ?fb c))"
    using sum_list_distinct_conv_sum_set [OF d] cs by (simp add: count_get_palette)
  have empty: "(?cs = []) = (set ?fa \<union> set ?fb = {})"
    using cs by (metis set_empty)
  have pos: "set ?fa \<union> set ?fb \<noteq> {} \<Longrightarrow>
      0 < (\<Sum>c \<in> set ?fa \<union> set ?fb. max (count_list ?fa c) (count_list ?fb c))"
    by (rule sum_max_count_pos)
  show ?thesis
    unfolding palette_similarity_def spec_palette_similarity_def Let_def num den empty
    using pos by auto
qed

lemma palette_similarity_bounds: "0 \<le> palette_similarity a b \<and> palette_similarity a b \<le> 1"
proof -
  let ?cs = "remdups (map fst (palette a) @ map fst (palette b))"
  let ?num = "sum_list (map (\<lambda>c. min (count_get (palette a) c) (count_get (palette b) c)) ?cs)"
  let ?den = "sum_list (map (\<lambda>c. max (count_get (palette a) c) (count_get (palette b) c)) ?cs)"
  have "?num \<le> ?den" by (rule sum_list_mono) simp
  then have "0 < ?den \<Longrightarrow> (of_nat ?num :: rat) / of_nat ?den \<le> 1"
    by simp
  moreover have "0 \<le> (of_nat ?num :: rat) / of_nat ?den" by simp
  ultimately show ?thesis
    by (simp add: palette_similarity_def Let_def)
qed

lemma score_pair_spec: "score_pair scroll x y = spec_pair_score scroll x y"
  by (simp add: score_pair_def spec_pair_score_def spec_exact_match_def np_all_eq_def
      palette_similarity_spec Let_def split: sum.splits)

lemma score_pair_bounds: "0 \<le> score_pair scroll x y \<and> score_pair scroll x y \<le> 1"
proof (cases "apply_scroll scroll x")
  case (Inl e)
  then show ?thesis by (simp add: score_pair_def)
next
  case (Inr g)
  have b: "0 \<le> palette_similarity (data g) (data y)" "palette_similarity (data g) (data y) \<le> 1"
    using palette_similarity_bounds by blast+
  show ?thesis using Inr b by (auto simp: score_pair_def Let_def)
qed

lemma sum_list_unit_bounds:
  fixes zs :: "rat list"
  assumes "\<forall>z \<in> set zs. 0 \<le> z \<and> z \<le> 1"
  shows "0 \<le> sum_list zs \<and> sum_list zs \<le> of_nat (length zs)"
  using assms by (induction zs) auto

lemma score_prog_bounds: "0 \<le> score_prog scroll xs ys \<and> score_prog scroll xs ys \<le> 1"
proof -
  let ?zs = "map (\<lambda>(x, y). score_pair scroll x y) (zip xs ys)"
  have "\<forall>z \<in> set ?zs. 0 \<le> z \<and> z \<le> 1"
    using score_pair_bounds by auto
  then have b: "0 \<le> sum_list ?zs \<and> sum_list ?zs \<le> of_nat (length ?zs)"
    by (rule sum_list_unit_bounds)
  show ?thesis
  proof (cases "?zs = []")
    case True
    then show ?thesis by (simp add: score_prog_def)
  next
    case False
    then have "0 < (of_nat (length ?zs) :: rat)" by simp
    with b have "0 \<le> sum_list ?zs / of_nat (length ?zs) \<and> sum_list ?zs / of_nat (length ?zs) \<le> 1"
      by (simp add: divide_le_eq_1)
    with False show ?thesis by (simp add: score_prog_def Let_def)
  qed
qed

lemma score_pair_exact: "spec_exact_match scroll x y \<Longrightarrow> score_pair scroll x y = 1"
  by (auto simp: spec_exact_match_def score_pair_def np_all_eq_def split: sum.splits)

lemma sum_list_all_one:
  fixes zs :: "rat list"
  shows "\<forall>z \<in> set zs. z = 1 \<Longrightarrow> sum_list zs = of_nat (length zs)"
  by (induction zs) auto

lemma score_prog_exact:
  assumes "zip xs ys \<noteq> []" and "\<forall>(x, y) \<in> set (zip xs ys). spec_exact_match scroll x y"
  shows "score_prog scroll xs ys = 1"
proof -
  let ?zs = "map (\<lambda>(x, y). score_pair scroll x y) (zip xs ys)"
  have "\<forall>z \<in> set ?zs. z = 1" using assms(2) score_pair_exact by auto
  then have "sum_list ?zs = of_nat (length ?zs)" by (rule sum_list_all_one)
  moreover have "?zs \<noteq> []" using assms(1) by simp
  ultimately show ?thesis by (simp add: score_prog_def Let_def)
qed

text \<open>
  Claim C4. \<open>score_prog\<close> is the arithmetic mean over the pairs of the pair scores of
  the specification (1 on an exact match, 0.7 palette similarity + 0.3 shape similarity for
  any other pair that ran); it lies between 0 and 1, is 1 when there is a pair and every pair
  matches exactly, and is 0 for no pairs.
\<close>

theorem score_prog_mean:
  "score_prog scroll xs ys =
     (if zip xs ys = [] then 0
      else (\<Sum>(x, y) \<leftarrow> zip xs ys. spec_pair_score scroll x y) / of_nat (length (zip xs ys))) \<and>
   0 \<le> score_prog scroll xs ys \<and> score_prog scroll xs ys \<le> 1 \<and>
   (zip xs ys \<noteq> [] \<and> (\<forall>(x, y) \<in> set (zip xs ys). spec_exact_match scroll x y)
      \<longrightarrow> score_prog scroll xs ys = 1) \<and>
   score_prog scroll [] [] = 0"
proof -
  have "(\<lambda>(x, y). score_pair scroll x y) = (\<lambda>(x, y). spec_pair_score scroll x y)"
    by (simp add: score_pair_spec)
  then have m: "score_prog scroll xs ys =
     (if zip xs ys = [] then 0
      else (\<Sum>(x, y) \<leftarrow> zip xs ys. spec_pair_score scroll x y) / of_nat (length (zip xs ys)))"
    unfolding score_prog_def Let_def by simp
  have e: "score_prog scroll [] [] = 0" by (simp add: score_prog_def)
  from m e score_prog_bounds [of scroll xs ys] score_prog_exact [of xs ys scroll]
  show ?thesis by blast
qed

theorem score_prog_mean_witness:
  "spec_exact_match [rot_step 1] \<lparr>data = \<lparr>shape = (1, 2), cells = [[1, 2]]\<rparr>, log = []\<rparr>
      \<lparr>data = \<lparr>shape = (2, 1), cells = [[2], [1]]\<rparr>, log = []\<rparr> \<and>
   score_prog [rot_step 1] [\<lparr>data = \<lparr>shape = (1, 2), cells = [[1, 2]]\<rparr>, log = []\<rparr>]
      [\<lparr>data = \<lparr>shape = (2, 1), cells = [[2], [1]]\<rparr>, log = []\<rparr>] = 1"
proof -
  let ?x = "\<lparr>data = \<lparr>shape = (1, 2), cells = [[1, 2]]\<rparr>, log = []\<rparr>"
  let ?y = "\<lparr>data = \<lparr>shape = (2, 1), cells = [[2], [1]]\<rparr>, log = []\<rparr>"
  have m: "spec_exact_match [rot_step 1] ?x ?y"
    by (simp add: spec_exact_match_def exec_defs)
  then have "zip [?x] [?y] \<noteq> [] \<and> (\<forall>(x, y) \<in> set (zip [?x] [?y]). spec_exact_match [rot_step 1] x y)"
    by simp
  with score_prog_mean [of "[rot_step 1]" "[?x]" "[?y]"] m show ?thesis by blast
qed




section \<open>The search\<close>

lemma canon_key_append:
  "canon_key (p @ q) =
     (case canon_key p of
        Inl e \<Rightarrow> Inl e
      | Inr kp \<Rightarrow> (case canon_key q of Inl e \<Rightarrow> Inl e | Inr kq \<Rightarrow> Inr (kp @ kq)))"
  by (induction p) (auto split: option.splits sum.splits)

lemma canon_key_length: "canon_key p = Inr k \<Longrightarrow> length k = length p"
  by (induction p arbitrary: k) (auto split: option.splits sum.splits)

lemma op_space_keys:
  assumes "ops \<in> set op_space"
  shows "\<exists>ko. canon_key ops = Inr ko \<and> ko \<noteq> [] \<and> key_hashable ko \<and> (last ko = kR1 \<longrightarrow> ko = [kR1])"
  using assms
  by (auto simp: op_space_def rot_step_def flip_step_def transpose_step_def key_hashable_def kR1_def)

lemma op_space_head: "\<exists>rest. op_space = [rot_step 1] # rest"
  by (simp add: op_space_def)

lemma canon_key_rot1: "canon_key [rot_step 1] = Inr [kR1]"
  by (simp add: rot_step_def kR1_def)

lemma expand_prog_inv:
  assumes "expand_prog xs ys prog op_lib st = Inr st'"
    and "round_inv pool seen0 st"
    and "set op_lib \<subseteq> set op_space"
    and "(prog, sc) \<in> set pool"
  shows "round_inv pool seen0 st'"
  using assms
proof (induction op_lib arbitrary: st)
  case Nil
  then show ?case by simp
next
  case (Cons ops rest)
  obtain seen np where st: "st = (seen, np)" by (cases st)
  from Cons.prems(3) have ops: "ops \<in> set op_space" and rest: "set rest \<subseteq> set op_space" by auto
  from op_space_keys [OF ops] obtain ko where ko: "canon_key ops = Inr ko" "ko \<noteq> []" by blast
  from Cons.prems(1) st obtain k where k: "canon_key (prog @ ops) = Inr k"
    by (auto simp: Let_def split: sum.splits)
  from k ko obtain kp where kp: "canon_key prog = Inr kp" "k = kp @ ko"
    by (auto simp: canon_key_append split: sum.splits)
  from Cons.prems(1) st k have h: "key_hashable k"
    by (auto simp: Let_def key_in_seen_def split: sum.splits if_splits)
  show ?case
  proof (cases "k \<in> seen")
    case True
    with Cons.prems(1) st k h have "expand_prog xs ys prog rest st = Inr st'"
      by (simp add: Let_def key_in_seen_def)
    with Cons.IH Cons.prems(2,4) rest show ?thesis by blast
  next
    case False
    let ?st1 = "(insert k seen, np @ [(prog @ ops, score_prog (prog @ ops) xs ys)])"
    from False Cons.prems(1) st k h have run: "expand_prog xs ys prog rest ?st1 = Inr st'"
      by (simp add: Let_def key_in_seen_def)
    have "prog @ ops \<noteq> []" using ko by auto
    moreover have "k \<notin> seen0" using False Cons.prems(2) st by (auto simp: round_inv_def)
    moreover have "\<exists>(p, s) \<in> set pool. \<exists>ops \<in> set op_space. \<exists>kp ko.
              canon_key p = Inr kp \<and> canon_key ops = Inr ko \<and> k = kp @ ko"
      using Cons.prems(4) ops kp ko(1) by blast
    ultimately have "round_inv pool seen0 ?st1"
      using Cons.prems(2) st k h unfolding round_inv_def by auto
    with Cons.IH run Cons.prems(4) rest show ?thesis by blast
  qed
qed

lemma expand_pool_inv:
  assumes "expand_pool xs ys op_space pl st = Inr st'"
    and "round_inv pool seen0 st"
    and "set pl \<subseteq> set pool"
  shows "round_inv pool seen0 st'"
  using assms
proof (induction pl arbitrary: st)
  case Nil
  then show ?case by simp
next
  case (Cons c rest)
  obtain prog sc where c: "c = (prog, sc)" by (cases c)
  from Cons.prems(1) c obtain st1 where s1: "expand_prog xs ys prog op_space st = Inr st1"
    and r: "expand_pool xs ys op_space rest st1 = Inr st'"
    by (auto split: sum.splits)
  have "(prog, sc) \<in> set pool" using Cons.prems(3) c by simp
  with s1 Cons.prems(2) have "round_inv pool seen0 st1"
    by (rule_tac expand_prog_inv) auto
  with Cons.IH r Cons.prems(3) show ?case by auto
qed

lemma expand_prog_grows:
  "expand_prog xs ys prog op_lib (seen, np) = Inr (seen', np') \<Longrightarrow> np \<noteq> [] \<Longrightarrow> np' \<noteq> []"
proof (induction op_lib arbitrary: seen np)
  case Nil
  then show ?case by simp
next
  case (Cons ops rest)
  then show ?case
    by (auto simp: Let_def split: sum.splits bool.splits)
qed

lemma expand_pool_grows:
  "expand_pool xs ys op_lib pl (seen, np) = Inr (seen', np') \<Longrightarrow> np \<noteq> [] \<Longrightarrow> np' \<noteq> []"
proof (induction pl arbitrary: seen np)
  case Nil
  then show ?case by simp
next
  case (Cons c rest)
  obtain prog sc where c: "c = (prog, sc)" by (cases c)
  from Cons.prems(1) c obtain s1 n1 where s1: "expand_prog xs ys prog op_lib (seen, np) = Inr (s1, n1)"
    and r: "expand_pool xs ys op_lib rest (s1, n1) = Inr (seen', np')"
    by (auto split: sum.splits)
  from expand_prog_grows [OF s1 Cons.prems(2)] have "n1 \<noteq> []" .
  with Cons.IH r show ?case by blast
qed

lemma expand_prog_first_new:
  assumes "canon_key (prog @ ops) = Inr k" and "k \<notin> seen"
    and "expand_prog xs ys prog (ops # rest) (seen, np) = Inr (seen', np')"
  shows "np' \<noteq> []"
proof -
  from assms have "expand_prog xs ys prog rest
      (insert k seen, np @ [(prog @ ops, score_prog (prog @ ops) xs ys)]) = Inr (seen', np')"
    by (auto simp: Let_def key_in_seen_def split: sum.splits if_splits)
  then show ?thesis by (rule expand_prog_grows) simp
qed


lemma round_step:
  assumes inv: "pool_inv pool seen" and ne: "pool \<noteq> []"
    and run: "expand_pool xs ys op_space pool (seen, []) = Inr (seen', np)"
  shows "np \<noteq> [] \<and> (\<forall>(g, s) \<in> set np. g \<noteq> []) \<and>
         (\<forall>pool'. set pool' \<subseteq> set np \<longrightarrow> pool_inv pool' seen')"
proof -
  have r0: "round_inv pool seen (seen, [])" by (simp add: round_inv_def)
  from expand_pool_inv [OF run r0] have r: "round_inv pool seen (seen', np)" by simp
  have nonempty: "np \<noteq> []"
  proof -
    from ne obtain prog sc rest where pool: "pool = (prog, sc) # rest"
      by (cases pool) auto
    from run pool obtain s1 n1
      where s1: "expand_prog xs ys prog op_space (seen, []) = Inr (s1, n1)"
        and r1: "expand_pool xs ys op_space rest (s1, n1) = Inr (seen', np)"
      by (auto split: sum.splits)
    from op_space_head obtain orest where os: "op_space = [rot_step 1] # orest" by blast
    from inv pool obtain kp where kp: "canon_key prog = Inr kp" "kp @ [kR1] \<notin> seen"
      by (auto simp: pool_inv_def)
    then have "canon_key (prog @ [rot_step 1]) = Inr (kp @ [kR1])"
      by (simp add: canon_key_append canon_key_rot1 del: canon_key.simps)
    with kp(2) s1 os have "n1 \<noteq> []"
      using expand_prog_first_new by metis
    with r1 show ?thesis by (rule expand_pool_grows)
  qed
  have progs: "\<forall>(g, s) \<in> set np. g \<noteq> []"
    using r by (auto simp: round_inv_def)
  have closed: "\<And>ks. ks @ [kR1] \<in> seen' \<Longrightarrow> ks = [] \<or> ks \<in> seen'"
  proof -
    fix ks
    assume a: "ks @ [kR1] \<in> seen'"
    from r have sub: "seen \<subseteq> seen'" by (simp add: round_inv_def)
    from r a consider (old) "ks @ [kR1] \<in> seen"
      | (new) p s ops kp ko where "(p, s) \<in> set pool" "ops \<in> set op_space"
          "canon_key p = Inr kp" "canon_key ops = Inr ko" "ks @ [kR1] = kp @ ko"
      unfolding round_inv_def by fastforce
    then show "ks = [] \<or> ks \<in> seen'"
    proof cases
      case old
      with inv sub show ?thesis by (auto simp: pool_inv_def)
    next
      case new
      from op_space_keys [OF new(2)] new(4)
      have ko: "ko \<noteq> []" "last ko = kR1 \<longrightarrow> ko = [kR1]" by auto
      from new(5) ko(1) have "last ko = kR1"
        by (metis last_appendR last_snoc)
      with ko(2) new(5) have "ks = kp" by simp
      moreover from inv new(1,3) have "kp = [] \<or> kp \<in> seen"
        by (auto simp: pool_inv_def)
      ultimately show ?thesis using sub by auto
    qed
  qed
  have next_inv: "pool_inv pool' seen'" if sub: "set pool' \<subseteq> set np" for pool'
    unfolding pool_inv_def
  proof (intro conjI ballI allI impI)
    fix c
    assume c: "c \<in> set pool'"
    obtain g s where gs: "c = (g, s)" by (cases c)
    with c sub have "(g, s) \<in> set np" by auto
    with r obtain kg where kg: "g \<noteq> []" "canon_key g = Inr kg" "kg \<in> seen'" "kg \<notin> seen"
      by (auto simp: round_inv_def)
    from canon_key_length [OF kg(2)] kg(1) have kne: "kg \<noteq> []" by auto
    have "kg @ [kR1] \<notin> seen'"
    proof
      assume "kg @ [kR1] \<in> seen'"
      from r this consider (old) "kg @ [kR1] \<in> seen"
        | (new) p s ops kp ko where "(p, s) \<in> set pool" "ops \<in> set op_space"
            "canon_key p = Inr kp" "canon_key ops = Inr ko" "kg @ [kR1] = kp @ ko"
        unfolding round_inv_def by fastforce
      then show False
      proof cases
        case old
        with inv have "kg = [] \<or> kg \<in> seen" by (auto simp: pool_inv_def)
        with kne kg(4) show False by simp
      next
        case new
        from op_space_keys [OF new(2)] new(4)
        have ko: "ko \<noteq> []" "last ko = kR1 \<longrightarrow> ko = [kR1]" by auto
        from new(5) ko(1) have "last ko = kR1"
          by (metis last_appendR last_snoc)
        with ko(2) new(5) have "kg = kp" by simp
        moreover from inv new(1,3) have "kp = [] \<or> kp \<in> seen"
          by (auto simp: pool_inv_def)
        ultimately show False using kne kg(4) by simp
      qed
    qed
    with kg gs show "case c of (p, s) \<Rightarrow>
        \<exists>kp. canon_key p = Inr kp \<and> (kp = [] \<or> kp \<in> seen') \<and> kp @ [kR1] \<notin> seen'"
      by auto
  next
    fix ks
    assume "ks @ [kR1] \<in> seen'"
    then show "ks = [] \<or> ks \<in> seen'" by (rule closed)
  qed
  from nonempty progs next_inv show ?thesis by blast
qed

lemma set_slice_to: "set (slice_to xs n) \<subseteq> set xs"
  by (auto simp: slice_to_def dest: in_set_takeD)

lemma slice_to_nonempty: "xs \<noteq> [] \<Longrightarrow> 1 \<le> n \<Longrightarrow> slice_to xs n \<noteq> []"
  by (cases xs) (auto simp: slice_to_def)

lemma set_sort_desc: "set (sort_desc pool) = set pool"
  by (simp add: sort_desc_def)

lemma sort_desc_nonempty: "pool \<noteq> [] \<Longrightarrow> sort_desc pool \<noteq> []"
  by (metis set_sort_desc set_empty)

lemma search_inv:
  assumes "search xs ys op_space beam n (pool, seen) = Inr (pool', seen')"
    and "pool_inv pool seen" and "pool \<noteq> []" and "1 \<le> beam"
    and "n = 0 \<longrightarrow> (\<forall>(p, s) \<in> set pool. p \<noteq> [])"
  shows "pool' \<noteq> [] \<and> (\<forall>(p, s) \<in> set pool'. p \<noteq> [])"
  using assms
proof (induction n arbitrary: pool seen)
  case 0
  then show ?case by simp
next
  case (Suc n)
  from Suc.prems(1) obtain s1 np
    where run: "expand_pool xs ys op_space pool (seen, []) = Inr (s1, np)"
      and rest: "search xs ys op_space beam n (slice_to (sort_desc np) beam, s1) = Inr (pool', seen')"
    by (auto split: sum.splits)
  let ?pool1 = "slice_to (sort_desc np) beam"
  from round_step [OF Suc.prems(2,3) run]
  have np: "np \<noteq> []" "\<forall>(g, s) \<in> set np. g \<noteq> []"
    and nx: "\<And>pool'. set pool' \<subseteq> set np \<Longrightarrow> pool_inv pool' s1" by blast+
  have sub: "set ?pool1 \<subseteq> set np"
    using set_slice_to [of "sort_desc np" beam] by (simp add: set_sort_desc)
  have "?pool1 \<noteq> []"
    using np(1) Suc.prems(4) by (simp add: slice_to_nonempty sort_desc_nonempty)
  moreover have "pool_inv ?pool1 s1" using sub by (rule nx)
  moreover have "\<forall>(p, s) \<in> set ?pool1. p \<noteq> []" using sub np(2) by auto
  ultimately show ?case using Suc.IH [OF rest] Suc.prems(4) by blast
qed

lemma canon_key_remap_rot:
  "canon_key ([remap_step m] @ [rot_step 1]) =
     Inr [(VStr ''REMAP'', [(''mapping'', VDict m), (''op'', VStr ''REMAP'')]), kR1]"
  by (simp add: rot_step_def remap_step_def kR1_def)

lemma expand_prog_ok:
  assumes "\<forall>ops \<in> set op_lib. \<exists>k. canon_key (prog @ ops) = Inr k \<and> key_hashable k"
  shows "\<exists>st'. expand_prog xs ys prog op_lib st = Inr st'"
  using assms
proof (induction op_lib arbitrary: st)
  case Nil
  then show ?case by simp
next
  case (Cons ops rest)
  obtain seen np where st: "st = (seen, np)" by (cases st)
  from Cons.prems obtain k where k: "canon_key (prog @ ops) = Inr k" "key_hashable k" by auto
  from Cons.prems have "\<forall>ops \<in> set rest. \<exists>k. canon_key (prog @ ops) = Inr k \<and> key_hashable k"
    by simp
  from Cons.IH [OF this] have ih: "\<And>st. \<exists>st'. expand_prog xs ys prog rest st = Inr st'" .
  show ?case
  proof (cases "k \<in> seen")
    case True
    with ih [of "(seen, np)"] st k show ?thesis
      by (simp add: Let_def key_in_seen_def)
  next
    case False
    with ih [of "(insert k seen, np @ [(prog @ ops, score_prog (prog @ ops) xs ys)])"] st k
    show ?thesis
      by (simp add: Let_def key_in_seen_def)
  qed
qed

lemma expand_prog_seed_raises:
  "expand_prog xs ys [remap_step m] op_space st = Inl TypeError"
proof -
  obtain seen np where st: "st = (seen, np)" by (cases st)
  from op_space_head obtain rest where os: "op_space = [rot_step 1] # rest" by blast
  have "\<not> key_hashable [(VStr ''REMAP'', [(''mapping'', VDict m), (''op'', VStr ''REMAP'')]), kR1]"
    by (simp add: key_hashable_def)
  then show ?thesis
    unfolding os st using canon_key_remap_rot [of m]
    by (simp add: key_in_seen_def Let_def)
qed

lemma search_seeded_raises:
  "search xs ys op_space beam (Suc n) ([([], s0), ([remap_step m], s1)], {}) = Inl TypeError"
proof -
  have "\<forall>ops \<in> set op_space. \<exists>k. canon_key ([] @ ops) = Inr k \<and> key_hashable k"
    using op_space_keys by auto
  from expand_prog_ok [OF this] obtain st'
    where "expand_prog xs ys [] op_space ({}, []) = Inr st'" by blast
  then show ?thesis
    by (simp add: expand_prog_seed_raises)
qed

text \<open>
  Claim C10, as amended. With a beam of at least 1 and a depth of at least 1, whenever
  \<open>synthesize_scroll\<close> returns, its result is a non-empty scroll: every round replaces the
  pool by extended candidates, and no round leaves the pool empty.
\<close>

theorem synthesize_scroll_nonempty:
  assumes "synthesize_scroll train_pairs beam depth = Inr result"
    and "1 \<le> beam" and "1 \<le> depth"
  shows "result \<noteq> []"
proof -
  from assms(1) obtain xs ys pool seen
    where xs: "xs \<noteq> []"
      and run: "search xs ys op_space beam (nat depth) (seed_pool xs ys, {}) = Inr (pool, seen)"
      and res: "result = (case sort_desc pool of [] \<Rightarrow> [] | (prog, s) # rest \<Rightarrow> prog)"
    unfolding synthesize_scroll_def
    by (auto split: sum.splits if_splits list.splits)
  from assms(3) obtain n where n: "nat depth = Suc n"
    by (cases "nat depth") auto
  have seed: "seed_pool xs ys = [([], score_prog [] xs ys)]"
  proof (rule ccontr)
    assume "seed_pool xs ys \<noteq> [([], score_prog [] xs ys)]"
    then obtain m where "seed_pool xs ys =
        [([], score_prog [] xs ys), ([remap_step m], score_prog [remap_step m] xs ys)]"
      by (auto simp: seed_pool_def Let_def split: option.splits if_splits)
    with run n show False by (simp add: search_seeded_raises del: search.simps)
  qed
  have "pool_inv [([], score_prog [] xs ys)] {}"
    by (simp add: pool_inv_def)
  with run seed n have "pool \<noteq> [] \<and> (\<forall>(p, s) \<in> set pool. p \<noteq> [])"
    using search_inv [of xs ys beam "Suc n" "[([], score_prog [] xs ys)]" "{}" pool seen] assms(2)
    by simp
  then have "sort_desc pool \<noteq> []" "\<forall>(p, s) \<in> set (sort_desc pool). p \<noteq> []"
    by (simp_all add: sort_desc_nonempty set_sort_desc)
  with res show ?thesis
    by (cases "sort_desc pool") auto
qed


theorem synthesize_scroll_nonempty_witness:
  "synthesize_scroll [\<lparr>p_input = [[1]], p_output = [[2, 3]]\<rparr>] 1 1 = Inr [rot_step 1] \<and>
   (1 :: int) \<le> 1 \<and> [rot_step 1] \<noteq> []"
proof -
  have e: "synthesize_scroll [\<lparr>p_input = [[1]], p_output = [[2, 3]]\<rparr>] 1 1 = Inr [rot_step 1]"
    by code_simp
  have b: "(1 :: int) \<le> 1" by simp
  from synthesize_scroll_nonempty [OF e b b] e show ?thesis by simp
qed

text \<open>
  With a beam of 0 the pool is empty after the first round and the result is the empty
  scroll.
\<close>

theorem synthesize_scroll_beam_zero_empty:
  "synthesize_scroll [\<lparr>p_input = [[1]], p_output = [[2, 3]]\<rparr>] 0 1 = Inr []"
  by code_simp

text \<open>
  When the first pair seeds a REMAP candidate, every search of depth at least 1 raises
  TypeError: the key of the first extension of the seeded scroll holds the mapping, a dict.
\<close>

lemma synthesize_seeded_raises:
  assumes "grids_of (map p_input train_pairs) = Inr xs"
    and "grids_of (map p_output train_pairs) = Inr ys"
    and "xs \<noteq> []"
    and "infer_remap (data (hd xs)) (data (hd ys)) = Some m" and "m \<noteq> []"
    and "1 \<le> depth"
  shows "synthesize_scroll train_pairs beam depth = Inl TypeError"
proof -
  from assms(6) obtain n where n: "nat depth = Suc n"
    by (cases "nat depth") auto
  have "seed_pool xs ys = [([], score_prog [] xs ys), ([remap_step m], score_prog [remap_step m] xs ys)]"
    using assms(4,5) by (simp add: seed_pool_def Let_def)
  then have "search xs ys op_space beam (nat depth) (seed_pool xs ys, {}) = Inl TypeError"
    unfolding n by (simp only: search_seeded_raises)
  with assms(1,2,3) show ?thesis
    by (simp add: synthesize_scroll_def)
qed

text \<open>
  Claim C1. The claim asks that \<open>synthesize_scroll\<close> returns a matching scroll for a task
  whose outputs are the inputs rotated once. On the pair below, whose output is the input
  rotated by ROT90(1), the search of depth 1 raises TypeError instead.
\<close>

theorem synthesize_scroll_rot90_raises:
  "map_sum id (\<lambda>g. to_list (op_ROT90 g 1)) (from_list [[1, 2], [3, 4]]) = Inr [[2, 4], [1, 3]] \<and>
   synthesize_scroll [\<lparr>p_input = [[1, 2], [3, 4]], p_output = [[2, 4], [1, 3]]\<rparr>] 100 1
     = Inl TypeError"
  by code_simp


text \<open>
  On scrolls whose steps are dicts with an \<open>'op'\<close> entry the key is built, and two
  scrolls have the same key exactly when they have the same length and their steps agree as
  dicts, whatever the order of the entries.
\<close>

lemma sort_key_fst_unique:
  fixes a b :: "(string \<times> pyval) list"
  assumes da: "distinct (map fst a)" and db: "distinct (map fst b)" and eq: "set a = set b"
  shows "sort_key fst a = sort_key fst b"
proof -
  let ?A = "sort_key fst a" and ?B = "sort_key fst b"
  have "map fst ?A = map fst ?B"
  proof (rule sorted_distinct_set_unique)
    show "sorted (map fst ?A)" by simp
    show "sorted (map fst ?B)" by simp
    show "distinct (map fst ?A)" using da by (simp add: distinct_map)
    show "distinct (map fst ?B)" using db by (simp add: distinct_map)
    show "set (map fst ?A) = set (map fst ?B)" using eq by simp
  qed
  moreover have "inj_on fst (set ?A \<union> set ?B)"
    using da eq by (simp add: distinct_map)
  ultimately show ?thesis by (rule map_inj_on)
qed

lemma sort_key_fst_eq_iff:
  fixes a b :: "(string \<times> pyval) list"
  assumes da: "distinct (map fst a)" and db: "distinct (map fst b)"
  shows "(sort_key fst a = sort_key fst b) = (map_of a = map_of b)"
proof
  assume "sort_key fst a = sort_key fst b"
  then have "set (sort_key fst a) = set (sort_key fst b)" by simp
  then have "set a = set b" by simp
  with da db show "map_of a = map_of b" by (simp add: map_of_inject_set)
next
  assume "map_of a = map_of b"
  with da db have "set a = set b" by (simp add: map_of_inject_set)
  with da db show "sort_key fst a = sort_key fst b" by (rule sort_key_fst_unique)
qed

lemma step_okD:
  assumes "step_ok s"
  shows "distinct (map fst s)" and "\<exists>v. map_of s ''op'' = Some v"
  using assms unfolding step_ok_def by blast+

lemma canon_key_total:
  "list_all step_ok p \<Longrightarrow> \<exists>k. canon_key p = Inr k"
proof (induction p)
  case Nil
  then show ?case by simp
next
  case (Cons a p)
  from Cons.prems have a: "step_ok a" and p: "list_all step_ok p" by simp_all
  from step_okD(2) [OF a] obtain v where v: "map_of a ''op'' = Some v" ..
  from Cons.IH [OF p] obtain k where "canon_key p = Inr k" ..
  with v show ?case by simp
qed

lemma canon_key_eq_iff:
  assumes "list_all step_ok p" and "list_all step_ok q"
  shows "(canon_key p = canon_key q) = list_all2 (\<lambda>a b. map_of a = map_of b) p q"
  using assms
proof (induction p arbitrary: q)
  case Nil
  show ?case
  proof (cases q)
    case Nil
    then show ?thesis by simp
  next
    case (Cons b q')
    with Nil.prems have b: "step_ok b" and q': "list_all step_ok q'" by simp_all
    from step_okD(2) [OF b] obtain v where v: "map_of b ''op'' = Some v" ..
    from canon_key_total [OF q'] obtain kq where "canon_key q' = Inr kq" ..
    with v Cons show ?thesis by simp
  qed
next
  case (Cons a p')
  from Cons.prems(1) have a: "step_ok a" and p': "list_all step_ok p'" by simp_all
  from step_okD(2) [OF a] obtain va where va: "map_of a ''op'' = Some va" ..
  from canon_key_total [OF p'] obtain kp where kp: "canon_key p' = Inr kp" ..
  show ?case
  proof (cases q)
    case Nil
    with va kp show ?thesis by simp
  next
    case q: (Cons b q')
    with Cons.prems(2) have b: "step_ok b" and q': "list_all step_ok q'" by simp_all
    from step_okD(2) [OF b] obtain vb where vb: "map_of b ''op'' = Some vb" ..
    from canon_key_total [OF q'] obtain kq where kq: "canon_key q' = Inr kq" ..
    have ih: "(canon_key p' = canon_key q') = list_all2 (\<lambda>a b. map_of a = map_of b) p' q'"
      using p' q' by (rule Cons.IH)
    have sk: "(sort_key fst a = sort_key fst b) = (map_of a = map_of b)"
      using step_okD(1) [OF a] step_okD(1) [OF b] by (rule sort_key_fst_eq_iff)
    have opv: "va = vb" if "map_of a = map_of b"
      using va vb that by simp
    have "(canon_key (a # p') = canon_key (b # q')) =
            (va = vb \<and> sort_key fst a = sort_key fst b \<and> kp = kq)"
      using va vb kp kq by simp
    also have "\<dots> = (map_of a = map_of b \<and> kp = kq)"
      unfolding sk using opv by (cases "map_of a = map_of b") simp_all
    also have "\<dots> = (map_of a = map_of b \<and> list_all2 (\<lambda>a b. map_of a = map_of b) p' q')"
      using ih kp kq by simp
    finally show ?thesis using q by simp
  qed
qed

text \<open>
  Claim C2. The claim asks that the key can be used for set membership for every operation
  kind, REMAP included. The key of a scroll with a REMAP step holds the step's mapping, and
  the membership test \<open>key in seen\<close> raises TypeError on it, for every mapping and every
  set \<open>seen\<close>.
\<close>

theorem remap_key_unhashable:
  "canon_key [remap_step m, rot_step 1] =
     Inr [(VStr ''REMAP'', [(''mapping'', VDict m), (''op'', VStr ''REMAP'')]),
          (VStr ''ROT90'', [(''k'', VInt 1), (''op'', VStr ''ROT90'')])] \<and>
   key_in_seen [(VStr ''REMAP'', [(''mapping'', VDict m), (''op'', VStr ''REMAP'')]),
                (VStr ''ROT90'', [(''k'', VInt 1), (''op'', VStr ''ROT90'')])] seen
     = Inl TypeError"
  by (simp add: rot_step_def remap_step_def key_in_seen_def key_hashable_def)

section \<open>The seeded REMAP candidate\<close>

lemma from_list_Inr:
  assumes "from_list l = Inr g"
  shows "g = grid_of_rows l \<and> l \<noteq> [] \<and> (\<forall>v \<in> set (concat l). in_int64 v) \<and>
         (\<forall>r \<in> set l. length r = length (hd l))"
proof (cases "\<exists>r \<in> set l. length r \<noteq> length (hd l)")
  case True
  then have "from_list l = Inl ValueError"
    unfolding from_list_def by (rule if_P)
  with assms show ?thesis by simp
next
  case a: False
  show ?thesis
  proof (cases "\<exists>v \<in> set (concat l). \<not> in_int64 v")
    case True
    with a have "from_list l = Inl OverflowError"
      unfolding from_list_def by (simp only: if_True if_False)
    with assms show ?thesis by simp
  next
    case b: False
    show ?thesis
    proof (cases "l = []")
      case True
      then have "from_list l = Inl ValueError"
        unfolding from_list_def by simp
      with assms show ?thesis by simp
    next
      case c: False
      with a b have "from_list l = Inr (grid_of_rows l)"
        unfolding from_list_def grid_of_rows_def by (simp only: if_True if_False)
      with assms have "g = grid_of_rows l" by simp
      moreover from b have "\<forall>v \<in> set (concat l). in_int64 v" by blast
      moreover from a have "\<forall>r \<in> set l. length r = length (hd l)" by blast
      ultimately show ?thesis using c by blast
    qed
  qed
qed

lemma grids_of_Inr:
  "grids_of ls = Inr gs \<Longrightarrow>
     gs = map grid_of_rows ls \<and>
     (\<forall>l \<in> set ls. l \<noteq> [] \<and> (\<forall>v \<in> set (concat l). in_int64 v) \<and>
        (\<forall>r \<in> set l. length r = length (hd l)))"
proof (induction ls arbitrary: gs)
  case Nil
  then show ?case by simp
next
  case (Cons l ls)
  from Cons.prems obtain g gs' where g: "from_list l = Inr g" and r: "grids_of ls = Inr gs'"
    and gs: "gs = g # gs'"
    by (auto split: sum.splits)
  from from_list_Inr [OF g] have g': "g = grid_of_rows l"
    and l: "l \<noteq> [] \<and> (\<forall>v \<in> set (concat l). in_int64 v) \<and>
            (\<forall>r \<in> set l. length r = length (hd l))" by blast+
  from Cons.IH [OF r] have gs': "gs' = map grid_of_rows ls"
    and ls: "\<forall>l \<in> set ls. l \<noteq> [] \<and> (\<forall>v \<in> set (concat l). in_int64 v) \<and>
        (\<forall>r \<in> set l. length r = length (hd l))" by blast+
  from g' gs' gs have "gs = map grid_of_rows (l # ls)" by simp
  moreover from l ls have "\<forall>k \<in> set (l # ls). k \<noteq> [] \<and> (\<forall>v \<in> set (concat k). in_int64 v) \<and>
        (\<forall>r \<in> set k. length r = length (hd k))"
    by (simp only: list.set ball_simps) blast
  ultimately show ?case by blast
qed

lemma sorted_map_incr:
  fixes f :: "int \<Rightarrow> int"
  assumes "sorted xs" and incr: "\<forall>a \<in> set xs. \<forall>b \<in> set xs. a < b \<longrightarrow> f a < f b"
  shows "sorted (map f xs)"
proof -
  have "sorted_wrt (\<lambda>x y. f x \<le> f y) xs"
  proof (rule sorted_wrt_mono_rel [of xs "(\<le>)"])
    fix x y
    assume x: "x \<in> set xs" and y: "y \<in> set xs" and le: "x \<le> y"
    show "f x \<le> f y"
    proof (cases "x = y")
      case True
      then show ?thesis by simp
    next
      case False
      with le have "x < y" by simp
      with incr x y have "f x < f y" by blast
      then show ?thesis by simp
    qed
  next
    show "sorted_wrt (\<le>) xs" using assms(1) by simp
  qed
  then show ?thesis by (simp only: sorted_map)
qed

lemma incr_inj_on:
  fixes f :: "int \<Rightarrow> int"
  assumes incr: "\<forall>a \<in> A. \<forall>b \<in> A. a < b \<longrightarrow> f a < f b"
  shows "inj_on f A"
proof (rule inj_onI)
  fix x y
  assume x: "x \<in> A" and y: "y \<in> A" and eq: "f x = f y"
  show "x = y"
  proof (rule ccontr)
    assume "x \<noteq> y"
    then consider "x < y" | "y < x" by linarith
    then show False
    proof cases
      case 1
      with incr x y have "f x < f y" by blast
      with eq show False by simp
    next
      case 2
      with incr x y have "f y < f x" by blast
      with eq show False by simp
    qed
  qed
qed

lemma sort_remdups_map_incr:
  assumes "\<forall>a \<in> set L. \<forall>b \<in> set L. a < b \<longrightarrow> f a < (f b :: int)"
  shows "sort (remdups (map f L)) = map f (sort (remdups (L :: int list)))"
proof (rule sorted_distinct_set_unique)
  show "sorted (sort (remdups (map f L)))" by simp
  show "distinct (sort (remdups (map f L)))" by simp
  show "sorted (map f (sort (remdups L)))"
    using assms by (intro sorted_map_incr) auto
  show "distinct (map f (sort (remdups L)))"
    using incr_inj_on [OF assms] by (simp add: distinct_map)
  show "set (sort (remdups (map f L))) = set (map f (sort (remdups L)))" by simp
qed

lemma zip_map_same: "zip xs (map f xs) = map (\<lambda>x. (x, f x)) xs"
  by (induction xs) auto

lemma np_unique_sorted: "sort (np_unique a) = np_unique a"
  by (simp add: np_unique_def sorted_sort_id)

lemma infer_remap_recolour:
  assumes "\<forall>a \<in> set (concat l). \<forall>b \<in> set (concat l). a < b \<longrightarrow> f a < f b"
  shows "infer_remap (data (grid_of_rows l)) (data (grid_of_rows (map (map f) l)))
           = Some (map (\<lambda>a. (a, f a)) (sort (remdups (concat l))))"
proof -
  have "np_unique (data (grid_of_rows (map (map f) l))) = sort (remdups (map f (concat l)))"
    by (simp add: np_unique_def grid_of_rows_def map_concat)
  also have "\<dots> = map f (sort (remdups (concat l)))"
    using assms by (rule sort_remdups_map_incr)
  finally have y: "np_unique (data (grid_of_rows (map (map f) l))) = map f (sort (remdups (concat l)))" .
  have x: "np_unique (data (grid_of_rows l)) = sort (remdups (concat l))"
    by (simp add: np_unique_def grid_of_rows_def)
  show ?thesis
    unfolding infer_remap_def Let_def np_unique_sorted
    by (simp add: x y zip_map_same)
qed

lemma spec_remap_cell_tabulate:
  "spec_remap_cell (map (\<lambda>a. (a, f a)) u) c = (if c \<in> set u then f c else c)"
  by (simp add: spec_remap_cell_def map_of_tabulate)

lemma eval_loop_exact:
  "\<forall>(x, y) \<in> set zs. spec_exact_match scroll x y \<Longrightarrow> eval_loop scroll i zs = Inr (True, ''exact match'')"
proof (induction zs arbitrary: i)
  case Nil
  then show ?case by simp
next
  case (Cons z zs)
  obtain x y where z: "z = (x, y)" by (cases z)
  with Cons.prems have "spec_exact_match scroll x y" by simp
  then obtain out where "apply_scroll scroll x = Inr out" "shape (data out) = shape (data y)"
    "cells (data out) = cells (data y)"
    by (auto simp: spec_exact_match_def split: sum.splits)
  with Cons z show ?case by (simp add: np_array_equal_def)
qed


lemma zip_map_pair: "zip (map f ps) (map g ps) = map (\<lambda>p. (f p, g p)) ps"
  by (induction ps) auto

lemma apply_remap_scroll:
  assumes "distinct (map fst m)" and "\<forall>(a, b) \<in> set m. in_int64 b"
  shows "apply_scroll [remap_step m] x =
           Inr \<lparr>data = (data x)\<lparr>cells := map (map (spec_remap_cell m)) (cells (data x))\<rparr>,
                 log = log x @ [''REMAP('' @ str_dict m @ '')'']\<rparr>"
proof -
  have "apply_step (remap_step m) x = op_REMAP x m"
    by (simp add: apply_step_def remap_step_def dict_get_def)
  also have "\<dots> = Inr \<lparr>data = (data x)\<lparr>cells := map (map (spec_remap_cell m)) (cells (data x))\<rparr>,
                 log = log x @ [''REMAP('' @ str_dict m @ '')'']\<rparr>"
    using op_REMAP_char [OF assms(1), of x] assms(2) by simp
  finally show ?thesis by simp
qed

text \<open>
  Claim C3, as amended. Let every pair of a task be a cell-wise recolouring by one colour map,
  with the shapes kept. If the map is strictly increasing on the colours of the first input,
  the first input has a cell, and every colour of a later input occurs in the first input or
  is left unchanged by the map, then \<open>_infer_remap\<close> on the first pair gives a non-empty
  mapping, the one-step REMAP scroll seeded from it has the score 1, and \<open>eval_scroll\<close>
  reports an exact match.
\<close>

theorem seeded_remap_exact:
  assumes ok_in: "grids_of (map p_input train_pairs) = Inr xs"
    and ok_out: "grids_of (map p_output train_pairs) = Inr ys"
    and ne: "train_pairs \<noteq> []"
    and cells0: "concat (p_input (hd train_pairs)) \<noteq> []"
    and recolour: "\<forall>p \<in> set train_pairs. p_output p = map (map \<pi>) (p_input p)"
    and incr: "\<forall>a \<in> set (concat (p_input (hd train_pairs))).
               \<forall>b \<in> set (concat (p_input (hd train_pairs))). a < b \<longrightarrow> \<pi> a < \<pi> b"
    and cover: "\<forall>p \<in> set train_pairs. \<forall>c \<in> set (concat (p_input p)).
                 c \<in> set (concat (p_input (hd train_pairs))) \<or> \<pi> c = c"
  shows "\<exists>m. infer_remap (data (hd xs)) (data (hd ys)) = Some m \<and> m \<noteq> [] \<and>
             seed_pool xs ys = [([], score_prog [] xs ys), ([remap_step m], 1)] \<and>
             eval_scroll [remap_step m] train_pairs = Inr (True, ''exact match'')"
proof -
  let ?first = "p_input (hd train_pairs)"
  let ?u = "sort (remdups (concat ?first))"
  let ?m = "map (\<lambda>a. (a, \<pi> a)) ?u"
  from grids_of_Inr [OF ok_in]
  have xs: "xs = map grid_of_rows (map p_input train_pairs)"
    and in_ne: "\<forall>l \<in> set (map p_input train_pairs). l \<noteq> []" by blast+
  from grids_of_Inr [OF ok_out]
  have ys: "ys = map grid_of_rows (map p_output train_pairs)"
    and rng: "\<forall>l \<in> set (map p_output train_pairs). \<forall>v \<in> set (concat l). in_int64 v" by blast+
  from ne have hd_in: "hd train_pairs \<in> set train_pairs" by simp
  have hdx: "hd xs = grid_of_rows ?first" using ne xs by (simp add: hd_map)
  have out0: "p_output (hd train_pairs) = map (map \<pi>) ?first" using recolour hd_in by blast
  have hdy: "hd ys = grid_of_rows (map (map \<pi>) ?first)" using ne ys out0 by (simp add: hd_map)
  have inf: "infer_remap (data (hd xs)) (data (hd ys)) = Some ?m"
    unfolding hdx hdy using incr by (rule infer_remap_recolour)
  have uset: "set ?u = set (concat ?first)" by simp
  have mne: "?m \<noteq> []"
  proof
    assume "?m = []"
    then have "?u = []" by simp
    then have "set ?u = {}" by simp
    with uset cells0 show False by simp
  qed
  have dist: "distinct (map fst ?m)" by (simp add: comp_def)
  have range: "\<forall>(a, b) \<in> set ?m. in_int64 b"
  proof -
    have "in_int64 (\<pi> a)" if a: "a \<in> set (concat ?first)" for a
    proof -
      from a have "\<pi> a \<in> set (concat (map (map \<pi>) ?first))"
        by (simp only: map_concat [symmetric] set_map image_eqI)
      with out0 have "\<pi> a \<in> set (concat (p_output (hd train_pairs)))" by simp
      with rng hd_in show ?thesis by auto
    qed
    with uset show ?thesis by auto
  qed
  have exact: "spec_exact_match [remap_step ?m] (grid_of_rows (p_input p)) (grid_of_rows (p_output p))"
    if p: "p \<in> set train_pairs" for p
  proof -
    let ?inp = "p_input p"
    have lne: "?inp \<noteq> []" using in_ne p by simp
    have out: "p_output p = map (map \<pi>) ?inp" using recolour p by blast
    have pt: "spec_remap_cell ?m c = \<pi> c" if c: "c \<in> set (concat ?inp)" for c
    proof -
      from cover p c have d: "c \<in> set (concat ?first) \<or> \<pi> c = c" by blast
      have "spec_remap_cell ?m c = (if c \<in> set (concat ?first) then \<pi> c else c)"
        unfolding spec_remap_cell_tabulate uset ..
      with d show ?thesis by metis
    qed
    have "map (map (spec_remap_cell ?m)) ?inp = map (map \<pi>) ?inp"
    proof (rule map_cong [OF refl], rule map_cong [OF refl])
      fix row c
      assume "row \<in> set ?inp" and "c \<in> set row"
      then have "c \<in> set (concat ?inp)" by auto
      then show "spec_remap_cell ?m c = \<pi> c" by (rule pt)
    qed
    with out have cellseq: "map (map (spec_remap_cell ?m)) ?inp = p_output p" by simp
    have shp: "shape (data (grid_of_rows (p_output p))) = shape (data (grid_of_rows ?inp))"
      using lne out by (simp add: grid_of_rows_def hd_map)
    have run: "apply_scroll [remap_step ?m] (grid_of_rows ?inp) =
        Inr \<lparr>data = (data (grid_of_rows ?inp))\<lparr>cells := map (map (spec_remap_cell ?m)) (cells (data (grid_of_rows ?inp)))\<rparr>,
                 log = log (grid_of_rows ?inp) @ [''REMAP('' @ str_dict ?m @ '')'']\<rparr>"
      using dist range by (rule apply_remap_scroll)
    show ?thesis
      unfolding spec_exact_match_def run using shp cellseq
      by (simp add: grid_of_rows_def)
  qed
  have zp: "zip xs ys = map (\<lambda>p. (grid_of_rows (p_input p), grid_of_rows (p_output p))) train_pairs"
    unfolding xs ys by (simp add: zip_map_pair)
  have all: "\<forall>(x, y) \<in> set (zip xs ys). spec_exact_match [remap_step ?m] x y"
    unfolding zp using exact by auto
  have zne: "zip xs ys \<noteq> []" unfolding zp using ne by simp
  have sc: "score_prog [remap_step ?m] xs ys = 1"
    using zne all by (rule score_prog_exact)
  have seed: "seed_pool xs ys = [([], score_prog [] xs ys), ([remap_step ?m], 1)]"
    unfolding seed_pool_def Let_def inf using mne sc by simp
  have ev: "eval_scroll [remap_step ?m] train_pairs = Inr (True, ''exact match'')"
    unfolding eval_scroll_def using ok_in ok_out eval_loop_exact [OF all] by simp
  from inf mne seed ev show ?thesis by blast
qed


theorem seeded_remap_exact_witness:
  "grids_of (map p_input [\<lparr>p_input = [[1, 2], [2, 1]], p_output = [[5, 7], [7, 5]]\<rparr>,
                          \<lparr>p_input = [[2, 9]], p_output = [[7, 9]]\<rparr>])
     = Inr [grid_of_rows [[1, 2], [2, 1]], grid_of_rows [[2, 9]]] \<and>
   grids_of (map p_output [\<lparr>p_input = [[1, 2], [2, 1]], p_output = [[5, 7], [7, 5]]\<rparr>,
                           \<lparr>p_input = [[2, 9]], p_output = [[7, 9]]\<rparr>])
     = Inr [grid_of_rows [[5, 7], [7, 5]], grid_of_rows [[7, 9]]] \<and>
   seed_pool [grid_of_rows [[1, 2], [2, 1]], grid_of_rows [[2, 9]]]
             [grid_of_rows [[5, 7], [7, 5]], grid_of_rows [[7, 9]]]
     = [([], score_prog [] [grid_of_rows [[1, 2], [2, 1]], grid_of_rows [[2, 9]]]
                           [grid_of_rows [[5, 7], [7, 5]], grid_of_rows [[7, 9]]]),
        ([remap_step [(1, 5), (2, 7)]], 1)] \<and>
   eval_scroll [remap_step [(1, 5), (2, 7)]]
       [\<lparr>p_input = [[1, 2], [2, 1]], p_output = [[5, 7], [7, 5]]\<rparr>,
        \<lparr>p_input = [[2, 9]], p_output = [[7, 9]]\<rparr>]
     = Inr (True, ''exact match'')"
proof -
  let ?P = "[\<lparr>p_input = [[1, 2], [2, 1]], p_output = [[5, 7], [7, 5]]\<rparr>,
             \<lparr>p_input = [[2, 9]], p_output = [[7, 9]]\<rparr>]"
  let ?X = "[grid_of_rows [[1, 2], [2, 1]], grid_of_rows [[2, 9]]]"
  let ?Y = "[grid_of_rows [[5, 7], [7, 5]], grid_of_rows [[7, 9]]]"
  let ?f = "\<lambda>c :: int. if c = 1 then 5 else if c = 2 then 7 else c"
  have ok_in: "grids_of (map p_input ?P) = Inr ?X" by code_simp
  have ok_out: "grids_of (map p_output ?P) = Inr ?Y" by code_simp
  have ne: "?P \<noteq> []" by simp
  have cells0: "concat (p_input (hd ?P)) \<noteq> []" by simp
  have recolour: "\<forall>p \<in> set ?P. p_output p = map (map ?f) (p_input p)" by simp
  have incr: "\<forall>a \<in> set (concat (p_input (hd ?P))).
               \<forall>b \<in> set (concat (p_input (hd ?P))). a < b \<longrightarrow> ?f a < ?f b" by simp
  have cover: "\<forall>p \<in> set ?P. \<forall>c \<in> set (concat (p_input p)).
                 c \<in> set (concat (p_input (hd ?P))) \<or> ?f c = c" by simp
  have inf: "infer_remap (data (hd ?X)) (data (hd ?Y)) = Some [(1, 5), (2, 7)]" by code_simp
  from seeded_remap_exact [OF ok_in ok_out ne cells0 recolour incr cover] inf
  have "seed_pool ?X ?Y = [([], score_prog [] ?X ?Y), ([remap_step [(1, 5), (2, 7)]], 1)] \<and>
        eval_scroll [remap_step [(1, 5), (2, 7)]] ?P = Inr (True, ''exact match'')"
    by auto
  with ok_in ok_out show ?thesis by simp
qed

text \<open>
  The pair below is recoloured by the permutation that swaps 1 and 2. The sorted-value
  bijection is the identity, the seeded scroll scores 13/20, and \<open>eval_scroll\<close> reports a
  mismatch.
\<close>

theorem seeded_remap_swap_mismatch:
  "[[2, 2, 1]] = map (map (\<lambda>c. 3 - c)) [[1, 1, 2 :: int]] \<and>
   seed_pool [\<lparr>data = \<lparr>shape = (1, 3), cells = [[1, 1, 2]]\<rparr>, log = []\<rparr>]
             [\<lparr>data = \<lparr>shape = (1, 3), cells = [[2, 2, 1]]\<rparr>, log = []\<rparr>]
     = [([], 13 / 20), ([remap_step [(1, 1), (2, 2)]], 13 / 20)] \<and>
   eval_scroll [remap_step [(1, 1), (2, 2)]] [\<lparr>p_input = [[1, 1, 2]], p_output = [[2, 2, 1]]\<rparr>]
     = Inr (False, ''mismatch on pair 1'')"
  by code_simp

section \<open>Every rotation task raises\<close>

text \<open>
  A rotation keeps the colours of a grid, so \<open>_infer_remap\<close> on the first pair of a
  task whose outputs are the rotated inputs gives a non-empty mapping and the REMAP scroll
  is seeded. With a depth of at least 1 the search then raises on every such task (or the
  task is rejected before the search starts).
\<close>

lemma wf_grid_of_rows:
  "\<forall>r \<in> set l. length r = length (hd l) \<Longrightarrow> wf_array (data (grid_of_rows l))"
  by (simp add: wf_array_def grid_of_rows_def)

lemma rot90_once_cells:
  "cells (np_rot90 a 1) = map (\<lambda>j. map (\<lambda>r. rev r ! j) (cells a)) [0 ..< snd (shape a)]"
  by (simp add: np_rot90_def np_transpose_def np_flip_def comp_def)

lemma set_rot90_once:
  assumes "wf_array a"
  shows "set (concat (cells (np_rot90 a 1))) = set (concat (cells a))"
proof -
  let ?w = "snd (shape a)"
  have len: "\<And>r. r \<in> set (cells a) \<Longrightarrow> length r = ?w"
    using assms by (simp add: wf_array_def)
  have "set (concat (cells (np_rot90 a 1))) = (\<Union>j \<in> {0 ..< ?w}. (\<lambda>r. rev r ! j) ` set (cells a))"
    by (simp add: rot90_once_cells)
  also have "\<dots> = (\<Union>r \<in> set (cells a). (\<lambda>j. rev r ! j) ` {0 ..< ?w})"
    by blast
  also have "\<dots> = (\<Union>r \<in> set (cells a). set r)"
  proof (rule SUP_cong [OF refl])
    fix r
    assume r: "r \<in> set (cells a)"
    have "(\<lambda>j. rev r ! j) ` {0 ..< length (rev r)} = set (rev r)"
      by (metis list.set_map map_nth set_upt)
    with len [OF r] show "(\<lambda>j. rev r ! j) ` {0 ..< ?w} = set r" by simp
  qed
  also have "\<dots> = set (concat (cells a))" by simp
  finally show ?thesis .
qed

lemma np_unique_set_cong:
  "set (concat (cells a)) = set (concat (cells b)) \<Longrightarrow> np_unique a = np_unique b"
  by (metis np_unique_def sorted_list_of_set_sort_remdups)

lemma infer_remap_same_colours:
  assumes "set (concat (cells x)) = set (concat (cells y))" and "concat (cells x) \<noteq> []"
  shows "\<exists>m. infer_remap x y = Some m \<and> m \<noteq> []"
proof -
  from assms(1) have u: "np_unique y = np_unique x" by (rule np_unique_set_cong [symmetric])
  have "set (np_unique x) = set (concat (cells x))" by (simp add: np_unique_def)
  with assms(2) have "np_unique x \<noteq> []" by (metis set_empty)
  then have "zip (sort (np_unique x)) (sort (np_unique x)) \<noteq> []"
    by (simp add: np_unique_sorted zip_same_conv_map)
  then show ?thesis by (simp add: infer_remap_def Let_def u)
qed

lemma synthesize_rot90_always_raises:
  assumes rot: "\<forall>p \<in> set train_pairs.
                  p_output p = cells (np_rot90 (data (grid_of_rows (p_input p))) 1)"
    and depth: "1 \<le> depth"
  shows "isl (synthesize_scroll train_pairs beam depth)"
proof (cases "grids_of (map p_input train_pairs)")
  case (Inl e)
  then show ?thesis by (simp add: synthesize_scroll_def)
next
  case xs: (Inr xs)
  show ?thesis
  proof (cases "grids_of (map p_output train_pairs)")
    case (Inl e)
    with xs show ?thesis by (simp add: synthesize_scroll_def)
  next
    case ys: (Inr ys)
    show ?thesis
    proof (cases "train_pairs = []")
      case True
      with xs ys show ?thesis by (simp add: synthesize_scroll_def)
    next
      case ne: False
      let ?p = "hd train_pairs"
      let ?l = "p_input ?p"
      from ne have hd_in: "?p \<in> set train_pairs" by simp
      from grids_of_Inr [OF xs] have xs_eq: "xs = map grid_of_rows (map p_input train_pairs)"
        by (rule conjunct1)
      from grids_of_Inr [OF ys] have ys_eq: "ys = map grid_of_rows (map p_output train_pairs)"
        by (rule conjunct1)
      have "?l \<in> set (map p_input train_pairs)" using hd_in by simp
      with grids_of_Inr [OF xs]
      have "?l \<noteq> [] \<and> (\<forall>v \<in> set (concat ?l). in_int64 v) \<and> (\<forall>r \<in> set ?l. length r = length (hd ?l))"
        by blast
      then have lne: "?l \<noteq> []" and rect: "\<forall>r \<in> set ?l. length r = length (hd ?l)"
        by blast+
      from rot hd_in have out: "p_output ?p = cells (np_rot90 (data (grid_of_rows ?l)) 1)" by blast
      have "p_output ?p \<in> set (map p_output train_pairs)" using hd_in by simp
      with grids_of_Inr [OF ys] have one: "p_output ?p \<noteq> []" by blast
      have "cells (np_rot90 (data (grid_of_rows ?l)) 1) =
              map (\<lambda>j. map (\<lambda>r. rev r ! j) ?l) [0 ..< length (hd ?l)]"
        by (simp add: rot90_once_cells grid_of_rows_def)
      with out one have "[0 ..< length (hd ?l)] \<noteq> []" by auto
      then have "0 < length (hd ?l)" by simp
      with lne have "hd ?l \<noteq> []" by auto
      with lne have cne: "concat ?l \<noteq> []"
        by (cases ?l) auto
      have xne: "xs \<noteq> []" using ne xs_eq by simp
      have hdx: "data (hd xs) = data (grid_of_rows ?l)" using ne xs_eq by (simp add: hd_map)
      have hdy: "cells (data (hd ys)) = cells (np_rot90 (data (grid_of_rows ?l)) 1)"
        using ne ys_eq out by (simp add: hd_map grid_of_rows_def)
      have "set (concat (cells (data (hd xs)))) = set (concat (cells (data (hd ys))))"
        unfolding hdx hdy using set_rot90_once [OF wf_grid_of_rows [OF rect]] by simp
      moreover have "concat (cells (data (hd xs))) \<noteq> []"
        unfolding hdx using cne by (simp add: grid_of_rows_def)
      ultimately obtain m where "infer_remap (data (hd xs)) (data (hd ys)) = Some m" "m \<noteq> []"
        using infer_remap_same_colours by blast
      then have "synthesize_scroll train_pairs beam depth = Inl TypeError"
        using synthesize_seeded_raises [OF xs ys xne _ _ depth] by blast
      then show ?thesis by simp
    qed
  qed
qed

end
